theory Spec2Isabelle
  imports Complex_Main
begin

section \<open>Training instances and entity spans\<close>

text \<open>
  A training instance of \<^verbatim>\<open>data_conversion.py\<close> is the Python tuple
  \<^verbatim>\<open>(text, {"entities": [(start, end, label), ...]})\<close>. The dictionary has the single key
  \<^verbatim>\<open>"entities"\<close>, so an instance is modelled as the pair of the text and the entity list.
  Offsets are Python integers, hence \<open>int\<close>.
\<close>

type_synonym entity = "int \<times> int \<times> string"

type_synonym train_instance = "string \<times> entity list"

definition ent_start :: "entity \<Rightarrow> int" where
  "ent_start e = fst e"

definition ent_end :: "entity \<Rightarrow> int" where
  "ent_end e = fst (snd e)"

definition ent_label :: "entity \<Rightarrow> string" where
  "ent_label e = snd (snd e)"

section \<open>Python strings\<close>

text \<open>
  A Python \<^verbatim>\<open>str\<close> is modelled as a \<open>string\<close> whose characters are the code points
  0 to 255, so \<open>length\<close> is Python's \<^verbatim>\<open>len\<close> on such text. \<open>is_space\<close> is
  \<^verbatim>\<open>str.isspace\<close> on one character, which is also what \<^verbatim>\<open>str.strip()\<close> removes and
  what \<^verbatim>\<open>\s\<close> matches in a \<^verbatim>\<open>str\<close> pattern; \<open>is_alnum\<close> is \<^verbatim>\<open>str.isalnum\<close>, so that
  \<open>is_tagchar\<close> is the character class \<^verbatim>\<open>[-\w]\<close>.
\<close>

definition is_space :: "char \<Rightarrow> bool" where
  "is_space c = (c \<in> {CHR 0x09, CHR 0x0A, CHR 0x0B, CHR 0x0C, CHR 0x0D, CHR 0x1C, CHR 0x1D,
     CHR 0x1E, CHR 0x1F, CHR 0x20, CHR 0x85, CHR 0xA0})"

definition is_alnum :: "char \<Rightarrow> bool" where
  "is_alnum c = (let n = (of_char c :: nat) in
     (48 \<le> n \<and> n \<le> 57) \<or> (65 \<le> n \<and> n \<le> 90) \<or> (97 \<le> n \<and> n \<le> 122)
     \<or> n = 170 \<or> n = 178 \<or> n = 179 \<or> n = 181 \<or> n = 185 \<or> n = 186
     \<or> (188 \<le> n \<and> n \<le> 190) \<or> (192 \<le> n \<and> n \<le> 214) \<or> (216 \<le> n \<and> n \<le> 246)
     \<or> 248 \<le> n)"

definition is_tagchar :: "char \<Rightarrow> bool" where
  "is_tagchar c = (c = CHR ''-'' \<or> is_alnum c \<or> c = CHR ''_'')"

definition strip :: "string \<Rightarrow> string" where
  "strip s = rev (dropWhile is_space (rev (dropWhile is_space s)))"

definition startswith :: "string \<Rightarrow> string \<Rightarrow> bool" where
  "startswith s p = (take (length p) s = p)"

text \<open>
  \<^verbatim>\<open>s.split(sep)\<close> for a non-empty separator: the occurrences of \<open>sep\<close> are found from
  left to right without overlap, and the parts between them are returned, so the result
  always has at least one part.
\<close>

function py_split :: "string \<Rightarrow> string \<Rightarrow> string list" where
  "py_split sep [] = [[]]"
| "py_split sep (c # cs) =
     (if sep \<noteq> [] \<and> startswith (c # cs) sep
      then [] # py_split sep (drop (length sep) (c # cs))
      else (case py_split sep cs of
              part # parts \<Rightarrow> (c # part) # parts
            | [] \<Rightarrow> [[c]]))"
  by pat_completeness auto
termination
  by (relation "measure (\<lambda>(sep, s). length s)") auto

text \<open>
  \<^verbatim>\<open>s[a:b]\<close>: a negative bound counts from the end, and both bounds are clamped to the
  string.
\<close>

definition py_index :: "nat \<Rightarrow> int \<Rightarrow> nat" where
  "py_index n i = (if i < 0 then nat (int n + i) else min n (nat i))"

definition py_slice :: "string \<Rightarrow> int \<Rightarrow> int \<Rightarrow> string" where
  "py_slice s a b = drop (py_index (length s) a) (take (py_index (length s) b) s)"

section \<open>The regular expression of the converter\<close>

text \<open>
  \<^verbatim>\<open>re.sub(r'(.+)\s+([-\w]+)', r'\1###\2', s)\<close>. The pattern is matched as Python's
  backtracking matcher does it. \<open>match_ws_tag w s\<close> is \<^verbatim>\<open>\s+([-\w]+)\<close> at the start of
  \<open>s\<close> when the whitespace run there has length \<open>w\<close>: the run is tried from its full length
  down to one character, and group 2 takes the longest run of \<^verbatim>\<open>[-\w]\<close> after it.
  \<open>match_dot n s\<close> is the whole pattern at the start of \<open>s\<close> when \<open>n\<close> characters precede
  the first line feed: group 1 (\<^verbatim>\<open>.+\<close>, which does not match a line feed) is tried from
  \<open>n\<close> characters down to one. A match returns group 1, group 2 and the text after the
  match. \<open>re_search\<close> finds the leftmost match and also returns the text skipped before
  it; \<open>re_sub\<close> replaces every match, continuing after each one.
\<close>

fun match_ws_tag :: "nat \<Rightarrow> string \<Rightarrow> (string \<times> string) option" where
  "match_ws_tag 0 s = None"
| "match_ws_tag (Suc w) s =
     (let g2 = takeWhile is_tagchar (drop (Suc w) s) in
      if g2 \<noteq> [] then Some (g2, drop (Suc w + length g2) s) else match_ws_tag w s)"

definition match_sep_tag :: "string \<Rightarrow> (string \<times> string) option" where
  "match_sep_tag s = match_ws_tag (length (takeWhile is_space s)) s"

fun match_dot :: "nat \<Rightarrow> string \<Rightarrow> (string \<times> string \<times> string) option" where
  "match_dot 0 s = None"
| "match_dot (Suc n) s =
     (case match_sep_tag (drop (Suc n) s) of
        Some (g2, rest) \<Rightarrow> Some (take (Suc n) s, g2, rest)
      | None \<Rightarrow> match_dot n s)"

definition match_here :: "string \<Rightarrow> (string \<times> string \<times> string) option" where
  "match_here s = match_dot (length (takeWhile (\<lambda>c. c \<noteq> CHR 0x0A) s)) s"

fun re_search :: "string \<Rightarrow> (string \<times> string \<times> string \<times> string) option" where
  "re_search [] = None"
| "re_search (c # cs) =
     (case match_here (c # cs) of
        Some (g1, g2, rest) \<Rightarrow> Some ([], g1, g2, rest)
      | None \<Rightarrow>
          (case re_search cs of
             Some (skipped, g1, g2, rest) \<Rightarrow> Some (c # skipped, g1, g2, rest)
           | None \<Rightarrow> None))"

text \<open>A match consumes at least one character, so the substitution terminates.\<close>

lemma takeWhile_drop_length:
  "length (takeWhile P (drop v s)) + v \<le> length s \<or> takeWhile P (drop v s) = []"
proof (cases "v \<le> length s")
  case True
  have "length (takeWhile P (drop v s)) \<le> length (drop v s)"
    by (rule length_takeWhile_le)
  then have "length (takeWhile P (drop v s)) \<le> length s - v" by simp
  with True have "length (takeWhile P (drop v s)) + v \<le> length s" by arith
  then show ?thesis by blast
next
  case False
  then show ?thesis by simp
qed

lemma match_ws_tag_SomeD:
  "match_ws_tag w s = Some (g2, rest) \<Longrightarrow>
   \<exists>v. 1 \<le> v \<and> v \<le> w \<and> g2 = takeWhile is_tagchar (drop v s) \<and> g2 \<noteq> []
       \<and> rest = drop (v + length g2) s"
proof (induction w)
  case 0
  then show ?case by simp
next
  case (Suc w)
  show ?case
  proof (cases "takeWhile is_tagchar (drop (Suc w) s) = []")
    case True
    with Suc.prems have "match_ws_tag w s = Some (g2, rest)" by simp
    from Suc.IH [OF this] show ?thesis by (metis le_Suc_eq)
  next
    case False
    with Suc.prems have "g2 = takeWhile is_tagchar (drop (Suc w) s)"
      and "rest = drop (Suc w + length g2) s" by (auto simp: Let_def)
    with False show ?thesis by (intro exI [of _ "Suc w"]) simp
  qed
qed

lemma match_ws_tag_rest:
  assumes "match_ws_tag w s = Some (g2, rest)"
  shows "length rest < length s"
proof -
  from match_ws_tag_SomeD [OF assms] obtain v where v: "1 \<le> v"
    and g2: "g2 = takeWhile is_tagchar (drop v s)" "g2 \<noteq> []"
    and rest: "rest = drop (v + length g2) s" by blast
  from takeWhile_drop_length [of is_tagchar v s] g2 have "length g2 + v \<le> length s" by simp
  with v rest show ?thesis by simp
qed

lemma match_dot_SomeD:
  "match_dot n s = Some (g1, g2, rest) \<Longrightarrow>
   \<exists>m. 1 \<le> m \<and> m \<le> n \<and> g1 = take m s \<and> match_sep_tag (drop m s) = Some (g2, rest)"
proof (induction n)
  case 0
  then show ?case by simp
next
  case (Suc n)
  show ?case
  proof (cases "match_sep_tag (drop (Suc n) s)")
    case None
    with Suc.prems have "match_dot n s = Some (g1, g2, rest)" by simp
    from Suc.IH [OF this] show ?thesis by (metis le_Suc_eq)
  next
    case (Some a)
    with Suc.prems have "a = (g2, rest)" and "g1 = take (Suc n) s"
      by (auto split: prod.splits)
    with Some show ?thesis by (intro exI [of _ "Suc n"]) simp
  qed
qed

lemma match_dot_rest:
  assumes "match_dot n s = Some (g1, g2, rest)"
  shows "length rest < length s"
proof -
  from match_dot_SomeD [OF assms] obtain m where
    "match_sep_tag (drop m s) = Some (g2, rest)" by blast
  then have "length rest < length (drop m s)"
    unfolding match_sep_tag_def by (rule match_ws_tag_rest)
  then show ?thesis by simp
qed

lemma re_search_rest:
  "re_search s = Some (skipped, g1, g2, rest) \<Longrightarrow> length rest < length s"
proof (induction s arbitrary: skipped)
  case Nil
  then show ?case by simp
next
  case (Cons c cs)
  show ?case
  proof (cases "match_here (c # cs)")
    case None
    with Cons.prems obtain sk where "re_search cs = Some (sk, g1, g2, rest)"
      by (auto split: option.splits)
    from Cons.IH [OF this] show ?thesis by simp
  next
    case (Some a)
    with Cons.prems have "match_here (c # cs) = Some (g1, g2, rest)"
      by (auto split: option.splits)
    then show ?thesis
      unfolding match_here_def by (rule match_dot_rest)
  qed
qed

function re_sub :: "string \<Rightarrow> string" where
  "re_sub s =
     (case re_search s of
        None \<Rightarrow> s
      | Some (skipped, g1, g2, rest) \<Rightarrow> skipped @ g1 @ ''###'' @ g2 @ re_sub rest)"
  by pat_completeness auto
termination
  by (relation "measure length") (auto dest: re_search_rest)

declare re_sub.simps [simp del]

section \<open>The overlap resolver\<close>

text \<open>
  \<^verbatim>\<open>remove_overlapping_entities\<close>: for every instance the loop
  \<^verbatim>\<open>for i in range(len(entities))\<close> is run over the index list; an index
  \<^verbatim>\<open>i >= len(entities) - 1\<close> is skipped by \<^verbatim>\<open>continue\<close>, any other index appends
  \<^verbatim>\<open>entities[i]\<close> when \<^verbatim>\<open>ent1[1] < ent2[0]\<close>. The statement \<^verbatim>\<open>i += 1\<close> at the end of
  the body rebinds the loop variable only until the next iteration assigns it again, so it
  has no effect and is left out. Every instance built by the converter owns a dictionary of
  its own, so the in-place update of the dictionaries is a map over the instances.
\<close>

fun resolve_loop :: "entity list \<Rightarrow> nat list \<Rightarrow> entity list \<Rightarrow> entity list" where
  "resolve_loop entities [] remaining_entities = remaining_entities"
| "resolve_loop entities (i # is) remaining_entities =
     (if int i \<ge> int (length entities) - 1 then resolve_loop entities is remaining_entities
      else
        (let ent1 = entities ! i; ent2 = entities ! (i + 1) in
         if ent_end ent1 < ent_start ent2
         then resolve_loop entities is (remaining_entities @ [ent1])
         else resolve_loop entities is remaining_entities))"

definition resolve_entities :: "entity list \<Rightarrow> entity list" where
  "resolve_entities entities = resolve_loop entities [0 ..< length entities] []"

definition remove_overlapping_entities :: "train_instance list \<Rightarrow> train_instance list" where
  "remove_overlapping_entities instances =
     map (\<lambda>inst. (fst inst, resolve_entities (snd inst))) instances"

section \<open>The BIO converter\<close>

text \<open>
  \<^verbatim>\<open>load_spacy_train_data_from_bio_dataset\<close>. The three exceptions the loop body can raise
  are values: \<open>ValueError\<close> when \<^verbatim>\<open>token, tag = res.strip().split('###')\<close> does not get
  exactly two parts, \<open>IndexError\<close> when \<^verbatim>\<open>tag.split('-')[1]\<close> has no second part, and
  \<open>MalformedTag\<close> for \<^verbatim>\<open>raise Exception("ERROR HERE...", tag)\<close>. The local variables of
  the function are the fields of \<open>conv_state\<close>; \<open>process_line\<close> is one iteration of the
  loop, \<open>handle_tag\<close> its \<^verbatim>\<open>if/elif\<close> chain on the tag, and \<open>append_current_entity\<close> the
  \<^verbatim>\<open>train_instance_annotations.append(...)\<close> of the open entity.
\<close>

datatype conv_error = ValueError | IndexError | MalformedTag string

record conv_state =
  train_instances :: "train_instance list"
  train_instance_text :: string
  train_instance_annotations :: "entity list"
  current_entity :: string
  current_tag :: string
  current_entity_offset :: int

definition initial_state :: conv_state where
  "initial_state =
     \<lparr>train_instances = [], train_instance_text = [], train_instance_annotations = [],
      current_entity = [], current_tag = [], current_entity_offset = 0\<rparr>"

definition split_token_tag :: "string \<Rightarrow> conv_error + string \<times> string" where
  "split_token_tag line =
     (let res = re_sub (strip line) in
      case py_split ''###'' (strip res) of
        [token, tag] \<Rightarrow> Inr (token, tag)
      | _ \<Rightarrow> Inl ValueError)"

definition append_current_entity :: "conv_state \<Rightarrow> conv_state" where
  "append_current_entity st =
     st\<lparr>train_instance_annotations := train_instance_annotations st @
          [(current_entity_offset st,
            current_entity_offset st + int (length (current_entity st)),
            current_tag st)]\<rparr>"

definition handle_tag :: "conv_state \<Rightarrow> int \<Rightarrow> string \<Rightarrow> string \<Rightarrow> conv_error + conv_state" where
  "handle_tag st current_offset token tag =
     (if startswith tag ''B'' then
        (let st' = (if length (strip (current_entity st)) > 0
                    then append_current_entity st else st) in
         case py_split ''-'' tag of
           p0 # label # ps \<Rightarrow>
             Inr (st'\<lparr>current_entity := strip token, current_tag := strip label,
                      current_entity_offset := current_offset\<rparr>)
         | _ \<Rightarrow> Inl IndexError)
      else if startswith tag ''I'' then
        Inr (st\<lparr>current_entity := current_entity st @ '' '' @ token\<rparr>)
      else if startswith tag ''O'' then
        (if length (strip (current_entity st)) > 0
         then Inr ((append_current_entity st)\<lparr>current_entity := [], current_tag := []\<rparr>)
         else Inr st)
      else Inl (MalformedTag tag))"

definition process_line :: "conv_state \<Rightarrow> string \<Rightarrow> conv_error + conv_state" where
  "process_line st line =
     (if length (strip line) = 0 \<and> length (strip (train_instance_text st)) > 0 then
        Inr (st\<lparr>train_instances := train_instances st @
                    [(strip (train_instance_text st), train_instance_annotations st)],
                 train_instance_text := [], train_instance_annotations := []\<rparr>)
      else if length (strip line) = 0
              \<or> (length (strip line) > 0 \<and> CHR '' '' \<notin> set (strip line)) then Inr st
      else
        (case split_token_tag line of
           Inl e \<Rightarrow> Inl e
         | Inr (token, tag) \<Rightarrow>
             handle_tag (st\<lparr>train_instance_text := train_instance_text st @ token @ '' ''\<rparr>)
               (int (length (train_instance_text st))) token
               (if strip tag = [] then ''O'' else tag)))"

fun convert_loop :: "conv_state \<Rightarrow> string list \<Rightarrow> conv_error + conv_state" where
  "convert_loop st [] = Inr st"
| "convert_loop st (line # lines) =
     (case process_line st line of
        Inl e \<Rightarrow> Inl e
      | Inr st' \<Rightarrow> convert_loop st' lines)"

definition load_spacy_train_data_from_bio_dataset ::
  "string list \<Rightarrow> conv_error + train_instance list" where
  "load_spacy_train_data_from_bio_dataset lines =
     (case convert_loop initial_state lines of
        Inl e \<Rightarrow> Inl e
      | Inr st \<Rightarrow> Inr (remove_overlapping_entities (train_instances st)))"

section \<open>The evaluator\<close>

text \<open>
  \<^verbatim>\<open>evaluation.py\<close>. The model under evaluation is a function from a text to the
  predicted entities, each given by the two attributes the evaluator reads, its surface
  text \<^verbatim>\<open>x.text\<close> and its label \<^verbatim>\<open>x.label_\<close>. A Python set of strings is a list without
  duplicates in some iteration order; the counts do not depend on that order. The counters
  are Python integers. The three scores are Python floats; they are computed here in exact
  real arithmetic, so the rounding of a floating-point division is not part of the model.
\<close>

record evaluation_scores =
  precision :: real
  recall :: real
  fscore :: real

type_synonym prediction = "string \<times> string"

definition convert_predictions_to_str_set :: "prediction list \<Rightarrow> string list" where
  "convert_predictions_to_str_set predictions =
     remdups (map (\<lambda>x. fst x @ ''_'' @ snd x) predictions)"

definition convert_gold_to_str_set :: "train_instance \<Rightarrow> string list" where
  "convert_gold_to_str_set test_instance =
     remdups (map (\<lambda>x. py_slice (fst test_instance) (ent_start x) (ent_end x) @ ''_'' @ ent_label x)
       (snd test_instance))"

fun count_predictions :: "string list \<Rightarrow> string list \<Rightarrow> int \<times> int \<Rightarrow> int \<times> int" where
  "count_predictions [] golds_set (tp, fp) = (tp, fp)"
| "count_predictions (pred # preds) golds_set (tp, fp) =
     (if pred \<in> set golds_set then count_predictions preds golds_set (tp + 1, fp)
      else count_predictions preds golds_set (tp, fp + 1))"

fun count_golds :: "string list \<Rightarrow> string list \<Rightarrow> int \<Rightarrow> int" where
  "count_golds [] predictions_set fn = fn"
| "count_golds (gold # golds) predictions_set fn =
     (if gold \<notin> set predictions_set then count_golds golds predictions_set (fn + 1)
      else count_golds golds predictions_set fn)"

definition compare_predictions_and_gold_labels ::
  "string list \<Rightarrow> string list \<Rightarrow> int \<times> int \<times> int" where
  "compare_predictions_and_gold_labels predictions_set golds_set =
     (case count_predictions predictions_set golds_set (0, 0) of
        (tp, fp) \<Rightarrow> (tp, fp, count_golds golds_set predictions_set 0))"

fun evaluate_loop ::
  "(string \<Rightarrow> prediction list) \<Rightarrow> train_instance list \<Rightarrow> int \<times> int \<times> int \<Rightarrow> int \<times> int \<times> int" where
  "evaluate_loop nlp [] (overall_tp, overall_fp, overall_fn) = (overall_tp, overall_fp, overall_fn)"
| "evaluate_loop nlp ((text, golds) # rest) (overall_tp, overall_fp, overall_fn) =
     (case compare_predictions_and_gold_labels
             (convert_predictions_to_str_set (nlp text)) (convert_gold_to_str_set (text, golds)) of
        (tp, fp, fn) \<Rightarrow>
          evaluate_loop nlp rest (overall_tp + tp, overall_fp + fp, overall_fn + fn))"

definition evaluate :: "train_instance list \<Rightarrow> (string \<Rightarrow> prediction list) \<Rightarrow> evaluation_scores" where
  "evaluate test_instances nlp =
     (case evaluate_loop nlp test_instances (0, 0, 0) of
        (overall_tp, overall_fp, overall_fn) \<Rightarrow>
          (let precision = (if overall_tp + overall_fp > 0
                            then real_of_int overall_tp / real_of_int (overall_tp + overall_fp) else 0);
               recall = (if overall_tp + overall_fn > 0
                         then real_of_int overall_tp / real_of_int (overall_tp + overall_fn) else 0);
               fscore = (if precision + recall > 0
                         then 2 * (precision * recall) / (precision + recall) else 0)
           in \<lparr>precision = precision, recall = recall, fscore = fscore\<rparr>))"

section \<open>The training loop\<close>

text \<open>
  \<^verbatim>\<open>train_nerc_model\<close>. Shuffling, batching and the update steps belong to the external
  library and do not enter the control flow of the checkpoint decision; what the loop sees
  of an epoch is the F-score that \<^verbatim>\<open>evaluate\<close> returns after it. The function is therefore
  modelled on the list of these scores, one for each epoch of \<^verbatim>\<open>range(num_epochs)\<close>, and
  returns the checkpoints written, each with its epoch number and its score (the two values
  that name the saved file). \<^verbatim>\<open>_save_model\<close> raises when no output directory is given.
\<close>

datatype train_error = NoOutputDir

type_synonym checkpoint = "nat \<times> real"

fun epoch_loop ::
  "string option \<Rightarrow> real \<Rightarrow> nat \<Rightarrow> real list \<Rightarrow> checkpoint list \<Rightarrow> train_error + checkpoint list" where
  "epoch_loop output_model_dir best_fscore epoch [] saved = Inr saved"
| "epoch_loop output_model_dir best_fscore epoch (current_fscore # scores) saved =
     (if current_fscore > best_fscore then
        (case output_model_dir of
           None \<Rightarrow> Inl NoOutputDir
         | Some d \<Rightarrow>
             epoch_loop output_model_dir current_fscore (Suc epoch) scores
               (saved @ [(epoch, current_fscore)]))
      else epoch_loop output_model_dir best_fscore (Suc epoch) scores saved)"

definition train_nerc_model :: "string option \<Rightarrow> real list \<Rightarrow> train_error + checkpoint list" where
  "train_nerc_model output_model_dir epoch_fscores =
     epoch_loop output_model_dir 0.0 0 epoch_fscores []"

section \<open>Notions of the specification\<close>

text \<open>
  The entities of the pairs \<open>(entities[i], entities[i+1])\<close> that pass the resolver's test.
\<close>

definition kept_pairs :: "entity list \<Rightarrow> entity list" where
  "kept_pairs entities =
     map fst (filter (\<lambda>p. ent_end (fst p) < ent_start (snd p)) (zip entities (tl entities)))"

text \<open>
  The input format: a line, stripped, is a token (its leading characters up to the first
  whitespace), a separator (the whitespace that follows) and a tag (the rest). A line is a
  token/tag line when the tag is not empty and holds no whitespace. A tag is valid when it is
  \<open>O\<close>, or \<open>B-\<close> or \<open>I-\<close> followed by a non-empty label; a line is well-formed when its tag
  is valid or empty (a blank line and a line with a token only have an empty tag). A tag has
  a bad prefix when it starts with a character of \<^verbatim>\<open>[-\w]\<close>, which every letter is, other than
  \<open>B\<close>, \<open>I\<close> and \<open>O\<close>.
\<close>

definition line_fields :: "string \<Rightarrow> string \<times> string \<times> string" where
  "line_fields line =
     (let s = strip line;
          token = takeWhile (\<lambda>c. \<not> is_space c) s;
          sep = takeWhile is_space (drop (length token) s);
          tag = drop (length token + length sep) s
      in (token, sep, tag))"

definition token_tag_line :: "string \<Rightarrow> bool" where
  "token_tag_line line =
     (case line_fields line of (token, sep, tag) \<Rightarrow> tag \<noteq> [] \<and> (\<forall>c \<in> set tag. \<not> is_space c))"

definition line_tag :: "string \<Rightarrow> string" where
  "line_tag line = snd (snd (line_fields line))"

definition bad_prefix :: "string \<Rightarrow> bool" where
  "bad_prefix tag =
     (tag \<noteq> [] \<and> is_tagchar (hd tag) \<and> hd tag \<notin> {CHR ''B'', CHR ''I'', CHR ''O''})"

definition valid_tag :: "string \<Rightarrow> bool" where
  "valid_tag tag =
     (tag = ''O'' \<or>
      ((startswith tag ''B-'' \<or> startswith tag ''I-'') \<and> 2 < length tag
        \<and> (\<forall>c \<in> set tag. \<not> is_space c)))"

definition wf_line :: "string \<Rightarrow> bool" where
  "wf_line line = (case line_fields line of (token, sep, tag) \<Rightarrow> tag = [] \<or> valid_tag tag)"

definition wf_bio :: "string list \<Rightarrow> bool" where
  "wf_bio lines = (\<forall>line \<in> set lines. wf_line line)"

text \<open>
  The sets of \<^verbatim>\<open>"<surface_text>_<label>"\<close> strings of one test instance, and the true
  positives, false positives and false negatives pooled over all instances.
\<close>

definition pred_strings :: "(string \<Rightarrow> prediction list) \<Rightarrow> train_instance \<Rightarrow> string set" where
  "pred_strings nlp inst = (\<lambda>x. fst x @ ''_'' @ snd x) ` set (nlp (fst inst))"

definition gold_strings :: "train_instance \<Rightarrow> string set" where
  "gold_strings inst =
     (\<lambda>x. py_slice (fst inst) (ent_start x) (ent_end x) @ ''_'' @ ent_label x) ` set (snd inst)"

definition pooled_tp :: "(string \<Rightarrow> prediction list) \<Rightarrow> train_instance list \<Rightarrow> int" where
  "pooled_tp nlp insts = (\<Sum>inst\<leftarrow>insts. int (card (pred_strings nlp inst \<inter> gold_strings inst)))"

definition pooled_fp :: "(string \<Rightarrow> prediction list) \<Rightarrow> train_instance list \<Rightarrow> int" where
  "pooled_fp nlp insts = (\<Sum>inst\<leftarrow>insts. int (card (pred_strings nlp inst - gold_strings inst)))"

definition pooled_fn :: "(string \<Rightarrow> prediction list) \<Rightarrow> train_instance list \<Rightarrow> int" where
  "pooled_fn nlp insts = (\<Sum>inst\<leftarrow>insts. int (card (gold_strings inst - pred_strings nlp inst)))"

text \<open>
  The best F-score before epoch \<open>k\<close>, starting from \<open>b\<close>, and the epochs whose score exceeds
  it.
\<close>

definition best_before :: "real \<Rightarrow> real list \<Rightarrow> nat \<Rightarrow> real" where
  "best_before b scores k = Max (insert b (set (take k scores)))"

definition improving_epochs :: "real \<Rightarrow> real list \<Rightarrow> nat list" where
  "improving_epochs b scores =
     filter (\<lambda>k. scores ! k > best_before b scores k) [0 ..< length scores]"

text \<open>
  The invariant of the conversion loop. \<open>slen t\<close> is the length of the instance text that a
  flush would record now. The text built so far does not start with whitespace; every
  recorded annotation starts at a non-negative offset and is not empty; every annotation that
  the resolver would keep ends within the text; the offset of the open entity lies within
  the text, or it is stale and every annotation recorded in this sentence starts at it; and
  the instances already flushed satisfy the span invariant after resolution.
\<close>

definition slen :: "string \<Rightarrow> int" where
  "slen t = int (length (strip t))"

definition conv_inv :: "conv_state \<Rightarrow> bool" where
  "conv_inv st =
     ((train_instance_text st = [] \<or> \<not> is_space (hd (train_instance_text st)))
      \<and> (\<forall>e \<in> set (train_instance_annotations st). 0 \<le> ent_start e \<and> ent_start e < ent_end e)
      \<and> (\<forall>e \<in> set (kept_pairs (train_instance_annotations st)).
            ent_end e \<le> slen (train_instance_text st))
      \<and> (current_entity_offset st < slen (train_instance_text st)
          \<or> (\<forall>e \<in> set (train_instance_annotations st). ent_start e = current_entity_offset st))
      \<and> 0 \<le> current_entity_offset st
      \<and> (\<forall>inst \<in> set (train_instances st). \<forall>e \<in> set (kept_pairs (snd inst)).
            0 \<le> ent_start e \<and> ent_start e < ent_end e \<and> ent_end e \<le> int (length (fst inst))))"

section \<open>Lemmas about the overlap resolver\<close>

lemma resolve_loop_append:
  "resolve_loop es (is1 @ is2) acc = resolve_loop es is2 (resolve_loop es is1 acc)"
  by (induction is1 arbitrary: acc) (simp_all add: Let_def)

lemma resolve_loop_upt:
  "n \<le> length es \<Longrightarrow>
   resolve_loop es [0 ..< n] [] =
     map fst (filter (\<lambda>p. ent_end (fst p) < ent_start (snd p)) (take n (zip es (tl es))))"
proof (induction n)
  case 0
  then show ?case by simp
next
  case (Suc n)
  let ?z = "zip es (tl es)"
  have len: "length ?z = length es - 1" by simp
  show ?case
  proof (cases "Suc n < length es")
    case True
    then have nz: "n < length ?z" by simp
    have zn: "?z ! n = (es ! n, es ! Suc n)"
      using True by (simp add: nth_tl)
    show ?thesis
      using Suc True nz zn
      by (simp add: resolve_loop_append take_Suc_conv_app_nth Let_def)
  next
    case False
    then have tk: "take (Suc n) ?z = take n ?z" by simp
    have skip: "int n \<ge> int (length es) - 1" using False by simp
    have "resolve_loop es [0 ..< Suc n] [] = resolve_loop es [n] (resolve_loop es [0 ..< n] [])"
      by (simp add: resolve_loop_append)
    also have "\<dots> = resolve_loop es [0 ..< n] []"
      using skip by simp
    finally show ?thesis
      using Suc.IH Suc.prems tk by simp
  qed
qed

lemma resolve_entities_kept_pairs: "resolve_entities es = kept_pairs es"
  by (simp add: resolve_entities_def kept_pairs_def resolve_loop_upt)

lemma kept_pairs_Cons2:
  "kept_pairs (x # y # es) =
     (if ent_end x < ent_start y then x # kept_pairs (y # es) else kept_pairs (y # es))"
  by (simp add: kept_pairs_def)

lemma kept_pairs_subset: "set (kept_pairs es) \<subseteq> set es"
proof -
  have "set (kept_pairs es) \<subseteq> fst ` set (zip es (tl es))"
    by (auto simp: kept_pairs_def)
  also have "\<dots> \<subseteq> set es"
    by (auto dest: set_zip_leftD)
  finally show ?thesis .
qed

lemma kept_pairs_separated:
  "sorted (map ent_start es) \<Longrightarrow>
   sorted_wrt (\<lambda>a b. ent_end a < ent_start b) (kept_pairs es)"
proof (induction es rule: induct_list012)
  case 1
  then show ?case by (simp add: kept_pairs_def)
next
  case (2 x)
  then show ?case by (simp add: kept_pairs_def)
next
  case (3 x y zs)
  then have IH: "sorted_wrt (\<lambda>a b. ent_end a < ent_start b) (kept_pairs (y # zs))"
    by simp
  have later: "ent_start y \<le> ent_start z" if "z \<in> set (kept_pairs (y # zs))" for z
  proof -
    from that kept_pairs_subset have "z \<in> set (y # zs)" by blast
    with "3.prems" show ?thesis by auto
  qed
  show ?case
  proof (cases "ent_end x < ent_start y")
    case True
    then have "\<forall>z \<in> set (kept_pairs (y # zs)). ent_end x < ent_start z"
      using later by fastforce
    with True IH show ?thesis by (simp add: kept_pairs_Cons2)
  next
    case False
    with IH show ?thesis by (simp add: kept_pairs_Cons2)
  qed
qed

lemma kept_pairs_snoc:
  "kept_pairs (es @ [e]) =
     kept_pairs es @ (if es \<noteq> [] \<and> ent_end (last es) < ent_start e then [last es] else [])"
proof (induction es rule: induct_list012)
  case 1
  then show ?case by (simp add: kept_pairs_def)
next
  case (2 x)
  then show ?case by (simp add: kept_pairs_def)
next
  case (3 x y zs)
  have "kept_pairs ((x # y # zs) @ [e]) =
      (if ent_end x < ent_start y then [x] else []) @ kept_pairs ((y # zs) @ [e])"
    by (simp add: kept_pairs_Cons2)
  also have "kept_pairs ((y # zs) @ [e]) = kept_pairs (y # zs) @
      (if ent_end (last (y # zs)) < ent_start e then [last (y # zs)] else [])"
    using "3.IH"(2) by simp
  finally show ?case by (simp add: kept_pairs_Cons2)
qed

section \<open>Lemmas about characters, stripping and splitting\<close>

lemma space_not_tagchar: "is_space c \<Longrightarrow> \<not> is_tagchar c"
  by (auto simp: is_space_def is_tagchar_def is_alnum_def)

lemma newline_space: "is_space (CHR 0x0A)"
  by (simp add: is_space_def)

lemma blank_space: "is_space (CHR '' '')"
  by (simp add: is_space_def)

lemma hash_not_space: "\<not> is_space (CHR ''#'')"
  by (simp add: is_space_def)

lemma bio_tagchar: "is_tagchar (CHR ''B'')" "is_tagchar (CHR ''I'')" "is_tagchar (CHR ''O'')"
  by (simp_all add: is_tagchar_def is_alnum_def)

lemma takeWhile_hd_last:
  assumes "takeWhile P xs \<noteq> []"
  shows "P (hd (takeWhile P xs))" "P (last (takeWhile P xs))"
proof -
  have "hd (takeWhile P xs) \<in> set (takeWhile P xs)" using assms by simp
  then show "P (hd (takeWhile P xs))" by (metis set_takeWhileD)
  have "last (takeWhile P xs) \<in> set (takeWhile P xs)" using assms by simp
  then show "P (last (takeWhile P xs))" by (metis set_takeWhileD)
qed

lemma strip_hd: "strip s = [] \<or> \<not> is_space (hd (strip s))"
proof -
  let ?d = "dropWhile is_space s"
  have d: "?d = [] \<or> \<not> is_space (hd ?d)" using hd_dropWhile by blast
  show ?thesis
  proof (cases "strip s = []")
    case True
    then show ?thesis by simp
  next
    case False
    then have ne: "dropWhile is_space (rev ?d) \<noteq> []"
      unfolding strip_def by (simp only: rev_is_Nil_conv not_False_eq_True)
    have dne: "?d \<noteq> []"
    proof
      assume "?d = []"
      then have "dropWhile is_space (rev ?d) = []" by (simp only: rev.simps dropWhile.simps)
      with ne show False by (simp only: not_False_eq_True simp_thms)
    qed
    obtain pre where "rev ?d = pre @ dropWhile is_space (rev ?d)"
      by (metis takeWhile_dropWhile_id)
    then have "last (rev ?d) = last (dropWhile is_space (rev ?d))"
      using ne by (metis last_appendR)
    then have h: "hd (strip s) = hd ?d"
      using ne dne by (simp add: strip_def hd_rev last_rev)
    from d dne have "\<not> is_space (hd ?d)" by blast
    with h have "\<not> is_space (hd (strip s))" by metis
    then show ?thesis by blast
  qed
qed

lemma strip_last: "strip s = [] \<or> \<not> is_space (last (strip s))"
proof (cases "strip s = []")
  case True
  then show ?thesis by simp
next
  case False
  then have ne: "dropWhile is_space (rev (dropWhile is_space s)) \<noteq> []"
    unfolding strip_def by (simp only: rev_is_Nil_conv not_False_eq_True)
  then have "\<not> is_space (hd (dropWhile is_space (rev (dropWhile is_space s))))"
    by (rule hd_dropWhile)
  then show ?thesis using ne by (simp add: strip_def last_rev)
qed

lemma strip_append_keep:
  assumes "A \<noteq> []" "\<not> is_space (hd A)" "\<not> is_space (last A)"
  shows "strip (A @ X) = A @ rev (dropWhile is_space (rev X))"
proof -
  have "dropWhile is_space (A @ X) = A @ X"
    using assms by (cases A) simp_all
  moreover have "dropWhile is_space (rev X @ rev A) = dropWhile is_space (rev X) @ rev A"
  proof (cases "\<forall>x \<in> set (rev X). is_space x")
    case True
    have "dropWhile is_space (rev A) = rev A"
      using assms by (cases "rev A") (simp_all add: hd_rev)
    with True show ?thesis by (simp add: dropWhile_append)
  next
    case False
    then show ?thesis by (auto simp: dropWhile_append)
  qed
  ultimately show ?thesis by (simp add: strip_def)
qed

lemma strip_not_Nil: "t \<noteq> [] \<Longrightarrow> \<not> is_space (hd t) \<Longrightarrow> strip t \<noteq> []"
proof -
  assume t: "t \<noteq> []" "\<not> is_space (hd t)"
  then have "dropWhile is_space t = t" by (cases t) simp_all
  moreover have "\<not> (\<forall>x \<in> set (rev t). is_space x)" using t by (cases t) auto
  then have "dropWhile is_space (rev t) \<noteq> []" by (simp add: dropWhile_eq_Nil_conv)
  ultimately show ?thesis by (simp add: strip_def)
qed

lemma strip_Nil_imp: "strip s \<noteq> [] \<Longrightarrow> s \<noteq> []"
  by (auto simp: strip_def)

lemma strip_length_le: "length (strip t) \<le> length t"
proof -
  have "length (dropWhile is_space (rev (dropWhile is_space t)))
      \<le> length (rev (dropWhile is_space t))"
    by (rule length_dropWhile_le)
  then have "length (strip t) \<le> length (dropWhile is_space t)"
    unfolding strip_def by simp
  also have "\<dots> \<le> length t" by (rule length_dropWhile_le)
  finally show ?thesis .
qed

lemma py_split_not_Nil: "py_split sep s \<noteq> []"
  by (induction sep s rule: py_split.induct) (auto split: list.splits)

lemma py_split_single: "py_split sep s = [b] \<Longrightarrow> b = s"
proof (induction sep s arbitrary: b rule: py_split.induct)
  case (1 sep)
  then show ?case by simp
next
  case (2 sep c cs)
  show ?case
  proof (cases "sep \<noteq> [] \<and> startswith (c # cs) sep")
    case True
    with "2.prems" py_split_not_Nil show ?thesis by simp
  next
    case False
    with "2.prems" py_split_not_Nil [of sep cs]
    obtain p where p: "py_split sep cs = [p]" "b = c # p"
      by (auto split: list.splits)
    with "2.IH"(2) False show ?thesis by auto
  qed
qed

lemma py_split_sep_two_parts:
  "sep \<noteq> [] \<Longrightarrow> 2 \<le> length (py_split sep (u @ sep @ v))"
proof (induction u)
  case Nil
  have sw: "startswith (sep @ v) sep" by (simp add: startswith_def)
  from Nil obtain c cs where s: "sep @ v = c # cs" by (cases sep) auto
  have "py_split sep (c # cs) = [] # py_split sep (drop (length sep) (c # cs))"
    using Nil sw s by simp
  moreover have "drop (length sep) (c # cs) = v"
    using s by (metis append_eq_conv_conj)
  moreover have "1 \<le> length (py_split sep v)"
    using py_split_not_Nil [of sep v] by (cases "py_split sep v") auto
  ultimately show ?case using s by simp
next
  case (Cons c u)
  then have IH: "2 \<le> length (py_split sep (u @ sep @ v))" by simp
  show ?case
  proof (cases "startswith (c # u @ sep @ v) sep")
    case True
    with Cons.prems py_split_not_Nil [of sep "drop (length sep) (c # u @ sep @ v)"]
    show ?thesis
      by (cases "py_split sep (drop (length sep) (c # u @ sep @ v))") auto
  next
    case False
    with IH show ?thesis by (auto split: list.splits)
  qed
qed

lemma py_split_marker:
  assumes "py_split ''###'' (u @ ''###'' @ v) = [a, b]"
  shows "(a = u \<and> b = v) \<or> (b \<noteq> [] \<and> hd b = CHR ''#'')"
  using assms
proof (induction u arbitrary: a)
  case Nil
  then have "py_split ''###'' v = [b]" and "a = []"
    by (simp_all add: startswith_def)
  then show ?case using py_split_single by blast
next
  case (Cons c u)
  show ?case
  proof (cases "startswith (c # u @ ''###'' @ v) ''###''")
    case True
    have ne: "''###'' \<noteq> []" by simp
    have "py_split ''###'' (c # u @ ''###'' @ v) =
        [] # py_split ''###'' (drop (length ''###'') (c # u @ ''###'' @ v))"
      using True ne by (simp only: py_split.simps if_True simp_thms)
    with Cons.prems have "py_split ''###'' (drop (length ''###'') (c # u @ ''###'' @ v)) = [b]"
      by (metis append_Cons list.inject)
    moreover have "length ''###'' = 3" by simp
    ultimately have b: "py_split ''###'' (drop 3 (c # u @ ''###'' @ v)) = [b]"
      by (simp only:)
    then have bd: "b = drop 3 (c # u @ ''###'' @ v)" by (rule py_split_single)
    show ?thesis
    proof (cases "3 \<le> length (c # u)")
      case True
      then have "drop 3 (c # u @ ''###'' @ v) = drop 3 (c # u) @ ''###'' @ v" by simp
      with py_split_sep_two_parts [of "''###''" "drop 3 (c # u)" v] b show ?thesis by simp
    next
      case False
      then have "length u = 0 \<or> length u = 1" by (simp del: length_0_conv) arith
      then show ?thesis
      proof
        assume "length u = 0"
        then show ?thesis using bd by simp
      next
        assume "length u = 1"
        then obtain d where "u = [d]" by (cases u) auto
        then show ?thesis using bd by simp
      qed
    qed
  next
    case False
    with Cons.prems obtain p where p: "py_split ''###'' (u @ ''###'' @ v) = [p, b]" "a = c # p"
      by (auto split: list.splits)
    from Cons.IH [OF p(1)] p(2) show ?thesis by auto
  qed
qed

section \<open>Lemmas about the regular expression\<close>

lemma match_ws_tag_complete:
  assumes "1 \<le> v" "v \<le> w" "takeWhile is_tagchar (drop v s) \<noteq> []"
  shows "match_ws_tag w s \<noteq> None"
  using assms
proof (induction w)
  case 0
  then show ?case by simp
next
  case (Suc w)
  show ?case
  proof (cases "takeWhile is_tagchar (drop (Suc w) s) = []")
    case True
    with Suc.prems have "v \<le> w" by (cases "v = Suc w") auto
    with Suc True show ?thesis by simp
  next
    case False
    then show ?thesis by (simp add: Let_def)
  qed
qed

lemma match_dot_complete:
  assumes "1 \<le> m" "m \<le> n" "match_sep_tag (drop m s) \<noteq> None"
  shows "match_dot n s \<noteq> None"
  using assms
proof (induction n)
  case 0
  then show ?case by simp
next
  case (Suc n)
  show ?case
  proof (cases "match_sep_tag (drop (Suc n) s)")
    case None
    with Suc.prems have "m \<le> n" by (cases "m = Suc n") auto
    with Suc None show ?thesis by simp
  next
    case (Some a)
    then show ?thesis by (simp split: prod.splits)
  qed
qed

lemma match_here_token_sep_tag:
  assumes tok: "tok \<noteq> []" "\<forall>c \<in> set tok. \<not> is_space c"
    and sep: "sep \<noteq> []" "\<forall>c \<in> set sep. is_space c"
    and tag: "tag \<noteq> []" "is_tagchar (hd tag)"
  shows "match_here (tok @ sep @ tag) \<noteq> None"
proof -
  let ?s = "tok @ sep @ tag"
  have nsp: "\<not> is_space (hd tag)" using tag space_not_tagchar by blast
  have "takeWhile is_space (sep @ tag) = sep"
    using sep tag nsp by (cases tag) (simp_all add: takeWhile_append2 takeWhile_tail)
  moreover have "takeWhile is_tagchar (drop (length sep) (sep @ tag)) \<noteq> []"
    using tag by (cases tag) simp_all
  ultimately have m: "match_sep_tag (drop (length tok) ?s) \<noteq> None"
    using sep match_ws_tag_complete [of "length sep" "length sep" "sep @ tag"]
    by (simp add: match_sep_tag_def Suc_leI)
  have "\<forall>c \<in> set tok. c \<noteq> CHR 0x0A" using tok newline_space by blast
  then have "takeWhile (\<lambda>c. c \<noteq> CHR 0x0A) ?s = tok @ takeWhile (\<lambda>c. c \<noteq> CHR 0x0A) (sep @ tag)"
    by (simp add: takeWhile_append2)
  then have "length tok \<le> length (takeWhile (\<lambda>c. c \<noteq> CHR 0x0A) ?s)" by simp
  moreover have "1 \<le> length tok" using tok by (simp add: Suc_leI)
  ultimately show ?thesis
    unfolding match_here_def using m match_dot_complete by blast
qed

lemma match_here_SomeD:
  assumes "match_here s = Some (g1, g2, rest)"
  shows "\<exists>m v. 1 \<le> m \<and> g1 = take m s \<and> 1 \<le> v \<and> v \<le> length (takeWhile is_space (drop m s))
           \<and> g2 = takeWhile is_tagchar (drop (m + v) s) \<and> g2 \<noteq> []
           \<and> rest = drop (m + v + length g2) s"
proof -
  from assms obtain m where m: "1 \<le> m" "g1 = take m s"
    and ms: "match_sep_tag (drop m s) = Some (g2, rest)"
    unfolding match_here_def using match_dot_SomeD by blast
  from ms obtain v where v: "1 \<le> v" "v \<le> length (takeWhile is_space (drop m s))"
    and g2: "g2 = takeWhile is_tagchar (drop v (drop m s))" "g2 \<noteq> []"
    and rest: "rest = drop (v + length g2) (drop m s)"
    unfolding match_sep_tag_def using match_ws_tag_SomeD by blast
  have "1 \<le> m \<and> g1 = take m s \<and> 1 \<le> v \<and> v \<le> length (takeWhile is_space (drop m s))
           \<and> g2 = takeWhile is_tagchar (drop (m + v) s) \<and> g2 \<noteq> []
           \<and> rest = drop (m + v + length g2) s"
    using m v g2 rest by (simp add: add.commute add.assoc)
  then show ?thesis by blast
qed

lemma match_here_Nil: "match_here [] = None"
  by (simp add: match_here_def)

lemma re_sub_matched:
  assumes "match_here s = Some (g1, g2, rest)"
  shows "re_sub s = g1 @ ''###'' @ g2 @ re_sub rest"
proof -
  from assms match_here_Nil obtain c cs where s: "s = c # cs" by (cases s) auto
  with assms have "re_search s = Some ([], g1, g2, rest)" by simp
  then show ?thesis by (subst re_sub.simps) simp
qed

lemma match_here_groups:
  assumes "match_here s = Some (g1, g2, rest)"
  shows "g1 \<noteq> []" "hd g1 = hd s" "g2 \<noteq> []" "is_tagchar (hd g2)" "is_tagchar (last g2)"
proof -
  from match_here_SomeD [OF assms] obtain m v where m: "1 \<le> m" "g1 = take m s"
    and g2: "g2 = takeWhile is_tagchar (drop (m + v) s)" "g2 \<noteq> []" by blast
  from assms match_here_Nil have s: "s \<noteq> []" by auto
  from m s show "g1 \<noteq> []" by auto
  from m s show "hd g1 = hd s" by (cases s; cases m) auto
  from g2 show "g2 \<noteq> []" by simp
  from g2 takeWhile_hd_last [of is_tagchar "drop (m + v) s"]
  show "is_tagchar (hd g2)" "is_tagchar (last g2)" by simp_all
qed

section \<open>Lemmas about parsing one line\<close>

lemma split_token_tag_matched:
  assumes s: "strip line = s" and mh: "match_here s = Some (g1, g2, rest)"
  shows "split_token_tag line = Inl ValueError \<or>
    (\<exists>token tag. split_token_tag line = Inr (token, tag) \<and> tag \<noteq> [] \<and>
       ((token = g1 \<and> hd tag = hd g2) \<or> hd tag = CHR ''#''))"
proof -
  note g = match_here_groups [OF mh]
  from mh match_here_Nil have sne: "s \<noteq> []" by auto
  with s strip_hd [of line] have hs: "\<not> is_space (hd s)" by auto
  define A where "A = g1 @ ''###'' @ g2"
  define X where "X = rev (dropWhile is_space (rev (re_sub rest)))"
  have A: "A \<noteq> []" "\<not> is_space (hd A)" "\<not> is_space (last A)"
    using g hs space_not_tagchar by (auto simp: A_def)
  have "strip (re_sub s) = strip (A @ re_sub rest)"
    by (simp add: re_sub_matched [OF mh] A_def)
  also have "\<dots> = A @ X"
    unfolding X_def by (rule strip_append_keep [OF A])
  finally have res: "strip (re_sub (strip line)) = g1 @ ''###'' @ (g2 @ X)"
    by (simp add: A_def s)
  show ?thesis
  proof (cases "\<exists>a b. py_split ''###'' (g1 @ ''###'' @ (g2 @ X)) = [a, b]")
    case True
    then obtain a b where ab: "py_split ''###'' (g1 @ ''###'' @ (g2 @ X)) = [a, b]" by blast
    then have st: "split_token_tag line = Inr (a, b)"
      by (simp add: split_token_tag_def res)
    from py_split_marker [OF ab] g(3) have "b \<noteq> [] \<and> ((a = g1 \<and> hd b = hd g2) \<or> hd b = CHR ''#'')"
      by (cases g2) auto
    with st show ?thesis by blast
  next
    case False
    then have "split_token_tag line = Inl ValueError"
      unfolding split_token_tag_def res Let_def
      by (auto split: list.splits)
    then show ?thesis by blast
  qed
qed

lemma handle_tag_bad_prefix:
  assumes "tag \<noteq> []" "hd tag \<notin> {CHR ''B'', CHR ''I'', CHR ''O''}"
  shows "handle_tag st off token tag = Inl (MalformedTag tag)"
  using assms by (cases tag) (auto simp: handle_tag_def startswith_def)

lemma line_fields_concat:
  assumes "line_fields line = (token, sep, tag)"
  shows "strip line = token @ sep @ tag"
    and "\<forall>c \<in> set token. \<not> is_space c"
    and "\<forall>c \<in> set sep. is_space c"
proof -
  let ?s = "strip line"
  from assms have t: "token = takeWhile (\<lambda>c. \<not> is_space c) ?s"
    and s: "sep = takeWhile is_space (drop (length token) ?s)"
    and g: "tag = drop (length token + length sep) ?s"
    by (auto simp: line_fields_def Let_def)
  have "?s = token @ drop (length token) ?s"
    using t by (metis append_take_drop_id takeWhile_eq_take)
  moreover have "drop (length token) ?s = sep @ drop (length sep) (drop (length token) ?s)"
    using s by (metis append_take_drop_id takeWhile_eq_take)
  ultimately show "strip line = token @ sep @ tag"
    using g by (simp add: add.commute)
  show "\<forall>c \<in> set token. \<not> is_space c"
    using t by (auto dest: set_takeWhileD)
  show "\<forall>c \<in> set sep. is_space c"
    using s by (auto dest: set_takeWhileD)
qed

lemma line_fields_tag:
  assumes f: "line_fields line = (token, sep, tag)" and tag: "tag \<noteq> []"
  shows "token \<noteq> []" "sep \<noteq> []"
proof -
  let ?s = "strip line"
  note c = line_fields_concat [OF f]
  from f have t: "token = takeWhile (\<lambda>c. \<not> is_space c) ?s"
    and s: "sep = takeWhile is_space (drop (length token) ?s)"
    by (auto simp: line_fields_def Let_def)
  from c(1) tag have sne: "?s \<noteq> []" by simp
  with strip_hd [of line] have "\<not> is_space (hd ?s)" by simp
  with sne t show "token \<noteq> []" by (cases ?s) auto
  have d: "drop (length token) ?s = dropWhile (\<lambda>c. \<not> is_space c) ?s"
    using t by (simp add: dropWhile_eq_drop)
  show "sep \<noteq> []"
  proof
    assume e: "sep = []"
    define r where "r = drop (length token) ?s"
    from e c(1) have "r = tag" by (simp add: r_def)
    with tag have rne: "r \<noteq> []" by simp
    from d have rd: "r = dropWhile (\<lambda>c. \<not> is_space c) ?s" by (simp add: r_def)
    with rne have "dropWhile (\<lambda>c. \<not> is_space c) ?s \<noteq> []" by simp
    from hd_dropWhile [OF this] rd have "is_space (hd r)" by simp
    with rne have "takeWhile is_space r \<noteq> []" by (cases r) auto
    with s e show False by (simp add: r_def)
  qed
qed

lemma nth_append3:
  "i < length a \<Longrightarrow> (a @ b @ c) ! i = a ! i"
  "length a \<le> i \<Longrightarrow> i < length a + length b \<Longrightarrow> (a @ b @ c) ! i = b ! (i - length a)"
  "length a + length b \<le> i \<Longrightarrow> (a @ b @ c) ! i = c ! (i - length a - length b)"
proof -
  show "i < length a \<Longrightarrow> (a @ b @ c) ! i = a ! i" by (simp add: nth_append)
  show "length a \<le> i \<Longrightarrow> i < length a + length b \<Longrightarrow> (a @ b @ c) ! i = b ! (i - length a)"
  proof -
    assume "length a \<le> i" "i < length a + length b"
    then have "\<not> i < length a" "i - length a < length b" by arith+
    then show ?thesis by (simp add: nth_append)
  qed
  show "length a + length b \<le> i \<Longrightarrow> (a @ b @ c) ! i = c ! (i - length a - length b)"
  proof -
    assume "length a + length b \<le> i"
    then have "\<not> i < length a" "\<not> i - length a < length b" by arith+
    then show ?thesis by (simp add: nth_append)
  qed
qed

lemma sep_position:
  assumes tok: "\<forall>c \<in> set tok. \<not> is_space c" and sep: "\<forall>c \<in> set sep. is_space c"
    and tag: "\<forall>c \<in> set tag. \<not> is_space c"
    and p: "1 \<le> p" "p < length (tok @ sep @ tag)"
    and sp: "is_space ((tok @ sep @ tag) ! (p - 1))" and nsp: "\<not> is_space ((tok @ sep @ tag) ! p)"
  shows "p = length tok + length sep"
proof -
  have a: "length tok \<le> p - 1"
  proof (rule ccontr)
    assume "\<not> length tok \<le> p - 1"
    then have "p - 1 < length tok" by simp
    then have "(tok @ sep @ tag) ! (p - 1) \<in> set tok" by (simp add: nth_append3(1))
    with tok sp show False by blast
  qed
  have b: "p - 1 < length tok + length sep"
  proof (rule ccontr)
    assume n: "\<not> p - 1 < length tok + length sep"
    then have "length tok + length sep \<le> p - 1" by simp
    then have "(tok @ sep @ tag) ! (p - 1) = tag ! (p - 1 - length tok - length sep)"
      by (rule nth_append3(3))
    moreover have "p - 1 - length tok - length sep < length tag" using n p by simp
    ultimately have "(tok @ sep @ tag) ! (p - 1) \<in> set tag" by simp
    with tag sp show False by blast
  qed
  have c: "\<not> p < length tok + length sep"
  proof
    assume l: "p < length tok + length sep"
    moreover from a p have "length tok \<le> p" by arith
    ultimately have "(tok @ sep @ tag) ! p = sep ! (p - length tok)"
      by (simp add: nth_append3(2))
    moreover have "p - length tok < length sep" using l a p by arith
    ultimately have "(tok @ sep @ tag) ! p \<in> set sep" by simp
    with sep nsp show False by blast
  qed
  from a b c p show ?thesis by arith
qed

lemma match_here_tag_prefix:
  assumes f: "line_fields line = (token, sep, tag)"
    and tag: "tag \<noteq> []" "\<forall>c \<in> set tag. \<not> is_space c" "is_tagchar (hd tag)"
  shows "\<exists>g1 g2 rest. match_here (strip line) = Some (g1, g2, rest) \<and> hd g2 = hd tag"
proof -
  note c = line_fields_concat [OF f]
  note ne = line_fields_tag [OF f tag(1)]
  define s where "s = token @ sep @ tag"
  from match_here_token_sep_tag [OF ne(1) c(2) ne(2) c(3) tag(1) tag(3)]
  obtain g1 g2 rest where mh: "match_here s = Some (g1, g2, rest)" by (auto simp: s_def)
  from match_here_SomeD [OF mh] obtain m v where m: "1 \<le> m"
    and v: "1 \<le> v" "v \<le> length (takeWhile is_space (drop m s))"
    and g2: "g2 = takeWhile is_tagchar (drop (m + v) s)" "g2 \<noteq> []" by blast
  define p where "p = m + v"
  define d where "d = drop p s"
  from g2 have g2d: "g2 = takeWhile is_tagchar d" "takeWhile is_tagchar d \<noteq> []"
    by (simp_all add: d_def p_def)
  then have "d \<noteq> []" by auto
  then have plt: "p < length s" unfolding d_def by (metis drop_all not_le_imp_less)
  have "hd g2 = hd d" using g2d by (cases d) (auto split: if_splits)
  moreover have "hd d = s ! p" unfolding d_def using plt by (rule hd_drop_conv_nth)
  ultimately have hd2: "hd g2 = s ! p" by simp
  have "is_tagchar (hd g2)" using g2d takeWhile_hd_last(1) [of is_tagchar d] by simp
  with hd2 have nsp: "\<not> is_space (s ! p)" using space_not_tagchar by auto
  have vl: "v - 1 < length (takeWhile is_space (drop m s))" using v by arith
  then have "takeWhile is_space (drop m s) ! (v - 1) = drop m s ! (v - 1)"
    by (rule takeWhile_nth)
  moreover have "takeWhile is_space (drop m s) ! (v - 1) \<in> set (takeWhile is_space (drop m s))"
    using vl by simp
  ultimately have "is_space (drop m s ! (v - 1))" by (metis set_takeWhileD)
  moreover have "m \<le> length s" using plt by (simp add: p_def)
  then have "drop m s ! (v - 1) = s ! (m + (v - 1))" by (rule nth_drop)
  moreover have "m + (v - 1) = p - 1" using v by (simp add: p_def)
  ultimately have sp: "is_space (s ! (p - 1))" by simp
  have p1: "1 \<le> p" using m by (simp add: p_def)
  from sep_position [OF c(2) c(3) tag(2), of p] p1 plt sp nsp
  have "p = length token + length sep" by (simp add: s_def)
  then have "d = tag" by (simp add: d_def s_def)
  with g2d tag have "hd g2 = hd tag" by (cases tag) auto
  with mh c(1) show ?thesis by (simp add: s_def)
qed

lemma process_line_bad_tag:
  assumes "token_tag_line line" "bad_prefix (line_tag line)" "CHR '' '' \<in> set (strip line)"
  shows "\<exists>e. process_line st line = Inl e"
proof -
  obtain token sep tag where f: "line_fields line = (token, sep, tag)"
    by (cases "line_fields line") auto
  with assms have tag: "tag \<noteq> []" "\<forall>c \<in> set tag. \<not> is_space c" "is_tagchar (hd tag)"
    and bad: "hd tag \<notin> {CHR ''B'', CHR ''I'', CHR ''O''}"
    by (simp_all add: token_tag_line_def bad_prefix_def line_tag_def)
  from match_here_tag_prefix [OF f tag] obtain g1 g2 rest where
    mh: "match_here (strip line) = Some (g1, g2, rest)" and hd2: "hd g2 = hd tag" by blast
  from assms(3) have guard: "length (strip line) \<noteq> 0" by auto
  from split_token_tag_matched [OF refl mh]
  show ?thesis
  proof
    assume "split_token_tag line = Inl ValueError"
    then show ?thesis using guard assms(3) by (simp add: process_line_def)
  next
    assume "\<exists>tk tg. split_token_tag line = Inr (tk, tg) \<and> tg \<noteq> [] \<and>
       ((tk = g1 \<and> hd tg = hd g2) \<or> hd tg = CHR ''#'')"
    then obtain tk tg where st: "split_token_tag line = Inr (tk, tg)" and tg: "tg \<noteq> []"
      and h: "hd tg = hd tag \<or> hd tg = CHR ''#''" using hd2 by auto
    from h tag(3) have ns: "\<not> is_space (hd tg)"
      using space_not_tagchar hash_not_space by auto
    from h bad have b: "hd tg \<notin> {CHR ''B'', CHR ''I'', CHR ''O''}" by auto
    from strip_not_Nil [OF tg ns] have "strip tg \<noteq> []" .
    then show ?thesis
      using guard assms(3) st handle_tag_bad_prefix [OF tg b]
      by (simp add: process_line_def)
  qed
qed

lemma convert_loop_error:
  assumes "line \<in> set lines" "\<And>st. \<exists>e. process_line st line = Inl e"
  shows "\<exists>e. convert_loop st lines = Inl e"
  using assms(1)
proof (induction lines arbitrary: st)
  case Nil
  then show ?case by simp
next
  case (Cons l ls)
  show ?case
  proof (cases "process_line st l")
    case (Inl e)
    then show ?thesis by simp
  next
    case (Inr st')
    with assms(2) [of st] have "l \<noteq> line" by auto
    with Cons.prems have "line \<in> set ls" by simp
    from Cons.IH [OF this] Inr show ?thesis by simp
  qed
qed

lemma valid_tag_hd: "valid_tag tag \<Longrightarrow> tag \<noteq> [] \<and> is_tagchar (hd tag)"
  using bio_tagchar by (cases tag) (auto simp: valid_tag_def startswith_def)

lemma process_line_wf:
  assumes wf: "wf_line line" and p: "process_line st line = Inr st'"
  shows "st' = st\<lparr>train_instances := train_instances st @
                    [(strip (train_instance_text st), train_instance_annotations st)],
                 train_instance_text := [], train_instance_annotations := []\<rparr>
         \<or> st' = st
         \<or> (\<exists>token tag. token \<noteq> [] \<and> \<not> is_space (hd token) \<and>
               handle_tag (st\<lparr>train_instance_text := train_instance_text st @ token @ '' ''\<rparr>)
                 (int (length (train_instance_text st))) token tag = Inr st')"
proof (cases "length (strip line) = 0 \<or> CHR '' '' \<notin> set (strip line)")
  case True
  with p show ?thesis by (auto simp: process_line_def split: if_splits)
next
  case False
  then have sne: "strip line \<noteq> []" and sp: "CHR '' '' \<in> set (strip line)" by auto
  obtain token sep tag where f: "line_fields line = (token, sep, tag)"
    by (cases "line_fields line") auto
  note c = line_fields_concat [OF f]
  have tne: "tag \<noteq> []"
  proof
    assume e: "tag = []"
    have "sep = []"
    proof (rule ccontr)
      assume "sep \<noteq> []"
      with e c(1) have "last (strip line) = last sep" by simp
      moreover have "last sep \<in> set sep" using \<open>sep \<noteq> []\<close> by simp
      ultimately have "is_space (last (strip line))" using c(3) by simp
      with strip_last [of line] sne show False by simp
    qed
    with e c(1) c(2) sp blank_space show False by auto
  qed
  with wf f have "valid_tag tag" by (simp add: wf_line_def)
  from valid_tag_hd [OF this] have tc: "is_tagchar (hd tag)" by simp
  note ne = line_fields_tag [OF f tne]
  from match_here_token_sep_tag [OF ne(1) c(2) ne(2) c(3) tne tc] c(1)
  obtain g1 g2 rest where mh: "match_here (strip line) = Some (g1, g2, rest)" by auto
  note g = match_here_groups [OF mh]
  from strip_hd [of line] sne g(2) have hg: "\<not> is_space (hd g1)" by simp
  from p False have p': "(case split_token_tag line of
           Inl e \<Rightarrow> Inl e
         | Inr (token, tag) \<Rightarrow>
             handle_tag (st\<lparr>train_instance_text := train_instance_text st @ token @ '' ''\<rparr>)
               (int (length (train_instance_text st))) token
               (if strip tag = [] then ''O'' else tag)) = Inr st'"
    by (simp add: process_line_def)
  from split_token_tag_matched [OF refl mh]
  show ?thesis
  proof
    assume "split_token_tag line = Inl ValueError"
    with p' show ?thesis by simp
  next
    assume "\<exists>tk tg. split_token_tag line = Inr (tk, tg) \<and> tg \<noteq> [] \<and>
       ((tk = g1 \<and> hd tg = hd g2) \<or> hd tg = CHR ''#'')"
    then obtain tk tg where st: "split_token_tag line = Inr (tk, tg)" and tg: "tg \<noteq> []"
      and h: "(tk = g1 \<and> hd tg = hd g2) \<or> hd tg = CHR ''#''" by blast
    from st p' have ht: "handle_tag (st\<lparr>train_instance_text := train_instance_text st @ tk @ '' ''\<rparr>)
               (int (length (train_instance_text st))) tk
               (if strip tg = [] then ''O'' else tg) = Inr st'" by simp
    have "tk = g1"
    proof (rule ccontr)
      assume "tk \<noteq> g1"
      with h have hh: "hd tg = CHR ''#''" by blast
      with tg have "strip tg \<noteq> []" using strip_not_Nil hash_not_space by simp
      moreover have "hd tg \<notin> {CHR ''B'', CHR ''I'', CHR ''O''}" using hh by simp
      ultimately show False using ht handle_tag_bad_prefix [OF tg] by simp
    qed
    with g(1) hg ht show ?thesis by blast
  qed
qed

section \<open>The invariant is preserved\<close>

lemma slen_grow:
  assumes "t = [] \<or> \<not> is_space (hd t)" "token \<noteq> []" "\<not> is_space (hd token)"
  shows "int (length t) < slen (t @ token @ '' '')" "slen t \<le> slen (t @ token @ '' '')"
proof -
  define A where "A = t @ [hd token]"
  have A: "A \<noteq> []" "\<not> is_space (hd A)" "\<not> is_space (last A)"
    using assms by (cases t; auto simp: A_def)+
  define X where "X = tl token @ '' ''"
  have eq: "t @ token @ '' '' = A @ X"
    using assms(2) by (simp add: A_def X_def)
  have "strip (A @ X) = A @ rev (dropWhile is_space (rev X))"
    by (rule strip_append_keep [OF A])
  then have "length A \<le> length (strip (A @ X))" by simp
  moreover have "length A = Suc (length t)" by (simp add: A_def)
  ultimately have "length t < length (strip (A @ X))" by simp
  then show 1: "int (length t) < slen (t @ token @ '' '')"
    unfolding slen_def eq by simp
  from strip_length_le [of t] 1 show "slen t \<le> slen (t @ token @ '' '')"
    by (simp add: slen_def)
qed

lemma conv_inv_initial: "conv_inv initial_state"
  by (simp add: conv_inv_def initial_state_def kept_pairs_def)

lemma conv_inv_append:
  assumes inv: "conv_inv st" and ne: "current_entity st \<noteq> []"
  shows "conv_inv (append_current_entity st)"
proof -
  let ?anns = "train_instance_annotations st"
  let ?off = "current_entity_offset st"
  let ?e = "(?off, ?off + int (length (current_entity st)), current_tag st)"
  let ?T = "train_instance_text st"
  from inv have i2: "\<forall>e \<in> set ?anns. 0 \<le> ent_start e \<and> ent_start e < ent_end e"
    and i3: "\<forall>e \<in> set (kept_pairs ?anns). ent_end e \<le> slen ?T"
    and i4: "?off < slen ?T \<or> (\<forall>e \<in> set ?anns. ent_start e = ?off)"
    and i5: "0 \<le> ?off"
    by (simp_all add: conv_inv_def)
  have e: "ent_start ?e = ?off" "ent_start ?e < ent_end ?e"
    using ne by (simp_all add: ent_start_def ent_end_def)
  have last: "ent_end (last ?anns) \<le> slen ?T"
    if "?anns \<noteq> []" "ent_end (last ?anns) < ?off"
  proof -
    from that(1) have m: "last ?anns \<in> set ?anns" by simp
    show ?thesis
    proof (cases "?off < slen ?T")
      case True
      with that(2) show ?thesis by simp
    next
      case False
      with i4 m have "ent_start (last ?anns) = ?off" by blast
      with i2 m that(2) show ?thesis by fastforce
    qed
  qed
  have k: "\<forall>x \<in> set (kept_pairs (?anns @ [?e])). ent_end x \<le> slen ?T"
    using i3 last e(1) by (auto simp: kept_pairs_snoc)
  have a: "\<forall>x \<in> set (?anns @ [?e]). 0 \<le> ent_start x \<and> ent_start x < ent_end x"
    using i2 i5 e by auto
  have b: "?off < slen ?T \<or> (\<forall>x \<in> set (?anns @ [?e]). ent_start x = ?off)"
    using i4 e(1) by auto
  from inv a k b show ?thesis
    by (simp add: conv_inv_def append_current_entity_def)
qed

lemma conv_inv_grow:
  assumes inv: "conv_inv st" and tk: "token \<noteq> []" "\<not> is_space (hd token)"
  shows "conv_inv (st\<lparr>train_instance_text := train_instance_text st @ token @ '' ''\<rparr>)"
proof -
  let ?T = "train_instance_text st"
  from inv have i1: "?T = [] \<or> \<not> is_space (hd ?T)" by (simp add: conv_inv_def)
  note g = slen_grow [OF i1 tk]
  have h: "(?T @ token @ '' '') = [] \<or> \<not> is_space (hd (?T @ token @ '' ''))"
    using i1 tk by (cases ?T) auto
  from inv g(2) h show ?thesis
    by (fastforce simp: conv_inv_def)
qed

lemma handle_tag_B:
  assumes "startswith tag ''B''" "handle_tag st off token tag = Inr st'"
  shows "st' = (if length (strip (current_entity st)) > 0
                then append_current_entity st else st)
                \<lparr>current_entity := strip token,
                 current_tag := strip (py_split ''-'' tag ! 1),
                 current_entity_offset := off\<rparr>"
proof (cases "py_split ''-'' tag")
  case Nil
  with assms show ?thesis by (simp add: handle_tag_def)
next
  case (Cons p0 ps)
  show ?thesis
  proof (cases ps)
    case Nil
    with Cons assms show ?thesis by (simp add: handle_tag_def)
  next
    case (Cons label ps')
    with \<open>py_split ''-'' tag = p0 # ps\<close> assms show ?thesis
      by (auto simp: handle_tag_def Let_def)
  qed
qed

lemma handle_tag_I:
  assumes "\<not> startswith tag ''B''" "startswith tag ''I''" "handle_tag st off token tag = Inr st'"
  shows "st' = st\<lparr>current_entity := current_entity st @ '' '' @ token\<rparr>"
  using assms by (simp add: handle_tag_def)

lemma handle_tag_O:
  assumes "\<not> startswith tag ''B''" "\<not> startswith tag ''I''" "handle_tag st off token tag = Inr st'"
  shows "st' = (if length (strip (current_entity st)) > 0
                then (append_current_entity st)\<lparr>current_entity := [], current_tag := []\<rparr>
                else st)"
proof (cases "startswith tag ''O''")
  case True
  with assms show ?thesis by (simp add: handle_tag_def split: if_splits)
next
  case False
  with assms show ?thesis by (simp add: handle_tag_def)
qed

lemma conv_inv_entity_update:
  "conv_inv (st\<lparr>current_entity := x\<rparr>) = conv_inv st"
  "conv_inv (st\<lparr>current_tag := y\<rparr>) = conv_inv st"
  by (simp_all add: conv_inv_def)

lemma conv_inv_offset_update:
  assumes "conv_inv st" "0 \<le> off" "off < slen (train_instance_text st)"
  shows "conv_inv (st\<lparr>current_entity_offset := off\<rparr>)"
  using assms by (simp add: conv_inv_def)

lemma conv_inv_maybe_append:
  assumes "conv_inv st"
  shows "conv_inv (if length (strip (current_entity st)) > 0 then append_current_entity st else st)"
proof (cases "length (strip (current_entity st)) > 0")
  case True
  then have "current_entity st \<noteq> []" using strip_Nil_imp by auto
  with assms True show ?thesis by (simp add: conv_inv_append)
next
  case False
  with assms show ?thesis by simp
qed

lemma handle_tag_inv:
  assumes inv: "conv_inv st" and tk: "token \<noteq> []" "\<not> is_space (hd token)"
    and h: "handle_tag (st\<lparr>train_instance_text := train_instance_text st @ token @ '' ''\<rparr>)
              (int (length (train_instance_text st))) token tag = Inr st'"
  shows "conv_inv st'"
proof -
  let ?T = "train_instance_text st"
  define st1 where "st1 = st\<lparr>train_instance_text := ?T @ token @ '' ''\<rparr>"
  have inv1: "conv_inv st1" unfolding st1_def by (rule conv_inv_grow [OF inv tk])
  from inv have i1: "?T = [] \<or> \<not> is_space (hd ?T)" by (simp add: conv_inv_def)
  have off: "int (length ?T) < slen (train_instance_text st1)"
    using slen_grow(1) [OF i1 tk] by (simp add: st1_def)
  define st2 where "st2 = (if length (strip (current_entity st1)) > 0
                    then append_current_entity st1 else st1)"
  have inv2: "conv_inv st2"
    unfolding st2_def by (rule conv_inv_maybe_append [OF inv1])
  have t2: "train_instance_text st2 = train_instance_text st1"
    by (simp add: st2_def append_current_entity_def)
  from h have h1: "handle_tag st1 (int (length ?T)) token tag = Inr st'" by (simp only: st1_def)
  show ?thesis
  proof (cases "startswith tag ''B''")
    case True
    define l where "l = strip (py_split ''-'' tag ! 1)"
    from handle_tag_B [OF True h1] have
      s: "st' = st2\<lparr>current_entity := strip token, current_tag := l,
        current_entity_offset := int (length ?T)\<rparr>"
      unfolding st2_def l_def .
    have "conv_inv (st2\<lparr>current_entity := strip token, current_tag := l\<rparr>)"
      using inv2 by (simp only: conv_inv_entity_update)
    moreover have "int (length ?T)
        < slen (train_instance_text (st2\<lparr>current_entity := strip token, current_tag := l\<rparr>))"
      using off t2 by simp
    ultimately have "conv_inv (st2\<lparr>current_entity := strip token, current_tag := l\<rparr>
        \<lparr>current_entity_offset := int (length ?T)\<rparr>)"
      by (intro conv_inv_offset_update) simp_all
    with s show ?thesis by simp
  next
    case nb: False
    show ?thesis
    proof (cases "startswith tag ''I''")
      case True
      from handle_tag_I [OF nb True h1] inv1 show ?thesis
        by (simp only: conv_inv_entity_update)
    next
      case ni: False
      have "conv_inv (if length (strip (current_entity st1)) > 0
                then (append_current_entity st1)\<lparr>current_entity := [], current_tag := []\<rparr>
                else st1)"
        using conv_inv_maybe_append [OF inv1]
        by (simp add: conv_inv_entity_update split: if_splits)
      with handle_tag_O [OF nb ni h1] show ?thesis by (simp only:)
    qed
  qed
qed

lemma conv_inv_flush:
  assumes "conv_inv st"
  shows "conv_inv (st\<lparr>train_instances := train_instances st @
                    [(strip (train_instance_text st), train_instance_annotations st)],
                 train_instance_text := [], train_instance_annotations := []\<rparr>)"
proof -
  have "\<forall>e \<in> set (kept_pairs (train_instance_annotations st)).
      0 \<le> ent_start e \<and> ent_start e < ent_end e
      \<and> ent_end e \<le> int (length (strip (train_instance_text st)))"
    using assms kept_pairs_subset [of "train_instance_annotations st"]
    by (auto simp: conv_inv_def slen_def)
  with assms show ?thesis
    by (auto simp: conv_inv_def kept_pairs_def)
qed

lemma process_line_inv:
  assumes "wf_line line" "conv_inv st" "process_line st line = Inr st'"
  shows "conv_inv st'"
  using process_line_wf [OF assms(1,3)] assms(2) conv_inv_flush handle_tag_inv
  by metis

lemma convert_loop_inv:
  assumes "wf_bio lines" "conv_inv st" "convert_loop st lines = Inr st'"
  shows "conv_inv st'"
  using assms
proof (induction lines arbitrary: st)
  case Nil
  then show ?case by simp
next
  case (Cons l ls)
  from Cons.prems(3) obtain st1 where s1: "process_line st l = Inr st1"
    and s2: "convert_loop st1 ls = Inr st'"
    by (auto split: sum.splits)
  from Cons.prems(1) have wl: "wf_line l" and wls: "wf_bio ls" by (simp_all add: wf_bio_def)
  from process_line_inv [OF wl Cons.prems(2) s1] have "conv_inv st1" .
  from Cons.IH [OF wls this s2] show ?case .
qed

section \<open>Lines that follow the last blank line\<close>

lemma handle_tag_instances:
  "handle_tag st off token tag = Inr st' \<Longrightarrow> train_instances st' = train_instances st"
  by (auto simp: handle_tag_def append_current_entity_def Let_def split: if_splits list.splits)

lemma process_line_instances:
  assumes "strip line \<noteq> []" "process_line st line = Inr st'"
  shows "train_instances st' = train_instances st"
proof (cases "CHR '' '' \<notin> set (strip line)")
  case True
  with assms show ?thesis by (simp add: process_line_def)
next
  case False
  with assms obtain token tag where
    "handle_tag (st\<lparr>train_instance_text := train_instance_text st @ token @ '' ''\<rparr>)
       (int (length (train_instance_text st))) token tag = Inr st'"
    by (auto simp: process_line_def split: sum.splits)
  from handle_tag_instances [OF this] show ?thesis by simp
qed

lemma convert_loop_instances:
  assumes "\<forall>line \<in> set lines. strip line \<noteq> []" "convert_loop st lines = Inr st'"
  shows "train_instances st' = train_instances st"
  using assms
proof (induction lines arbitrary: st)
  case Nil
  then show ?case by simp
next
  case (Cons l ls)
  from Cons.prems(2) obtain st1 where s1: "process_line st l = Inr st1"
    and s2: "convert_loop st1 ls = Inr st'"
    by (auto split: sum.splits)
  from Cons.prems(1) process_line_instances [OF _ s1]
  have "train_instances st1 = train_instances st" by simp
  moreover from Cons.IH [OF _ s2] Cons.prems(1)
  have "train_instances st' = train_instances st1" by simp
  ultimately show ?case by simp
qed

lemma convert_loop_append:
  "convert_loop st (xs @ ys) =
     (case convert_loop st xs of Inl e \<Rightarrow> Inl e | Inr st' \<Rightarrow> convert_loop st' ys)"
  by (induction xs arbitrary: st) (auto split: sum.splits)

section \<open>Lemmas about the evaluator\<close>

lemma count_predictions_card:
  "distinct ps \<Longrightarrow>
   count_predictions ps gs (tp, fp) =
     (tp + int (card (set ps \<inter> set gs)), fp + int (card (set ps - set gs)))"
proof (induction ps arbitrary: tp fp)
  case Nil
  then show ?case by simp
next
  case (Cons p ps)
  then have d: "distinct ps" and np: "p \<notin> set ps" by simp_all
  show ?case
  proof (cases "p \<in> set gs")
    case True
    then have "set (p # ps) \<inter> set gs = insert p (set ps \<inter> set gs)"
      and "set (p # ps) - set gs = set ps - set gs" by auto
    with True np Cons.IH [OF d] show ?thesis by simp
  next
    case False
    then have "set (p # ps) \<inter> set gs = set ps \<inter> set gs"
      and "set (p # ps) - set gs = insert p (set ps - set gs)" by auto
    with False np Cons.IH [OF d] show ?thesis by simp
  qed
qed

lemma count_golds_card:
  "distinct gs \<Longrightarrow> count_golds gs ps fn = fn + int (card (set gs - set ps))"
proof (induction gs arbitrary: fn)
  case Nil
  then show ?case by simp
next
  case (Cons g gs)
  then have d: "distinct gs" and ng: "g \<notin> set gs" by simp_all
  show ?case
  proof (cases "g \<in> set ps")
    case True
    then have "set (g # gs) - set ps = set gs - set ps" by auto
    with True Cons.IH [OF d] show ?thesis by simp
  next
    case False
    then have "set (g # gs) - set ps = insert g (set gs - set ps)" by auto
    with False ng Cons.IH [OF d] show ?thesis by simp
  qed
qed

lemma compare_card:
  "compare_predictions_and_gold_labels
      (convert_predictions_to_str_set (nlp (fst inst))) (convert_gold_to_str_set inst) =
     (int (card (pred_strings nlp inst \<inter> gold_strings inst)),
      int (card (pred_strings nlp inst - gold_strings inst)),
      int (card (gold_strings inst - pred_strings nlp inst)))"
  by (simp add: compare_predictions_and_gold_labels_def count_predictions_card count_golds_card
      convert_predictions_to_str_set_def convert_gold_to_str_set_def pred_strings_def
      gold_strings_def)

lemma evaluate_loop_pooled:
  "evaluate_loop nlp insts (a, b, c) =
     (a + pooled_tp nlp insts, b + pooled_fp nlp insts, c + pooled_fn nlp insts)"
proof (induction insts arbitrary: a b c)
  case Nil
  then show ?case by (simp add: pooled_tp_def pooled_fp_def pooled_fn_def)
next
  case (Cons inst insts)
  obtain t g where inst: "inst = (t, g)" by (cases inst)
  show ?case
    using Cons.IH compare_card [of nlp "(t, g)"]
    by (simp add: inst pooled_tp_def pooled_fp_def pooled_fn_def)
qed

lemma pooled_nonneg:
  "0 \<le> pooled_tp nlp insts" "0 \<le> pooled_fp nlp insts" "0 \<le> pooled_fn nlp insts"
  by (induction insts) (simp_all add: pooled_tp_def pooled_fp_def pooled_fn_def)

lemma pooled_empty:
  assumes "\<forall>inst \<in> set insts. pred_strings nlp inst = {} \<and> gold_strings inst = {}"
  shows "pooled_tp nlp insts = 0" "pooled_fp nlp insts = 0" "pooled_fn nlp insts = 0"
  using assms by (induction insts) (simp_all add: pooled_tp_def pooled_fp_def pooled_fn_def)

lemma evaluate_pooled:
  "evaluate insts nlp =
     (let tp = pooled_tp nlp insts; fp = pooled_fp nlp insts; fn = pooled_fn nlp insts;
          p = (if tp + fp > 0 then real_of_int tp / real_of_int (tp + fp) else 0);
          r = (if tp + fn > 0 then real_of_int tp / real_of_int (tp + fn) else 0)
      in \<lparr>precision = p, recall = r,
          fscore = (if p + r > 0 then 2 * (p * r) / (p + r) else 0)\<rparr>)"
  by (simp add: evaluate_def evaluate_loop_pooled Let_def)

lemma evaluate_paris_berlin:
  "evaluate [(''Paris Berlin'', [(0, 5, ''LOC''), (6, 12, ''LOC'')])] (\<lambda>t. [(''Paris'', ''LOC'')]) =
     \<lparr>precision = 1, recall = 1 / 2, fscore = 2 / 3\<rparr>"
  by (simp add: evaluate_def compare_predictions_and_gold_labels_def
      convert_predictions_to_str_set_def convert_gold_to_str_set_def py_slice_def py_index_def
      ent_start_def ent_end_def ent_label_def)

section \<open>Lemmas about the training loop\<close>

lemma Max_insert_insert:
  "finite S \<Longrightarrow> Max (insert b (insert x S)) = Max (insert (max b x) S)"
  by (cases "S = {}") (simp_all add: max.assoc)

lemma best_before_Suc:
  "best_before b (x # scores) (Suc k) = best_before (max b x) scores k"
proof -
  have "set (take (Suc k) (x # scores)) = insert x (set (take k scores))" by simp
  then show ?thesis
    unfolding best_before_def by (simp only: Max_insert_insert [OF finite_set])
qed

lemma improving_epochs_Cons:
  "improving_epochs b (x # scores) =
     (if x > b then [0] else []) @ map Suc (improving_epochs (max b x) scores)"
proof -
  have "[0 ..< length (x # scores)] = 0 # map Suc [0 ..< length scores]"
    by (simp add: upt_conv_Cons map_Suc_upt del: upt_Suc)
  then show ?thesis
    by (simp add: improving_epochs_def best_before_Suc filter_map comp_def best_before_def)
qed

lemma epoch_loop_improving:
  "epoch_loop (Some d) b e scores saved =
     Inr (saved @ map (\<lambda>k. (e + k, scores ! k)) (improving_epochs b scores))"
proof (induction scores arbitrary: b e saved)
  case Nil
  then show ?case by (simp add: improving_epochs_def)
next
  case (Cons x scores)
  show ?case
  proof (cases "x > b")
    case True
    then have "max b x = x" by simp
    with True Cons show ?thesis
      by (simp add: improving_epochs_Cons comp_def)
  next
    case False
    then have "max b x = b" by simp
    with False Cons show ?thesis
      by (simp add: improving_epochs_Cons comp_def)
  qed
qed

section \<open>The claims\<close>

text \<open>
  C1. The claim: converting the lines \<open>Shaka B-PER\<close>, \<open>Khan I-PER\<close>, \<open>is O\<close>, \<open>here O\<close>
  yields exactly the one instance \<open>(Shaka Khan is here, [(0, 10, PER)])\<close>. The code returns
  no instance at all: an instance is appended only when a blank line is read, and these
  lines end without one. With a blank line added, the loop does build the instance of the
  claim, but the resolver then removes its only entity.
\<close>

theorem single_sentence_conversion:
  "load_spacy_train_data_from_bio_dataset
      [''Shaka B-PER'', ''Khan I-PER'', ''is O'', ''here O''] = Inr []
   \<and> load_spacy_train_data_from_bio_dataset
      [''Shaka B-PER'', ''Khan I-PER'', ''is O'', ''here O'', ''''] =
        Inr [(''Shaka Khan is here'', [])]
   \<and> map_sum id train_instances (convert_loop initial_state
      [''Shaka B-PER'', ''Khan I-PER'', ''is O'', ''here O'', '''']) =
        Inr [(''Shaka Khan is here'', [(0, 10, ''PER'')])]"
  by code_simp

text \<open>
  C2. The claim says that an instance with one entity keeps its entity list unchanged. The
  code does not: for a list of length one the only index is \<open>0 \<ge> len - 1\<close>, the body runs
  \<^verbatim>\<open>continue\<close>, and the instance is left with the empty list. The docstring of the
  function promises to remove offending (overlapping) entities only.
\<close>

theorem resolver_drops_single_entity:
  "remove_overlapping_entities [(''Shaka'', [(0, 5, ''PER'')])] = [(''Shaka'', [])]"
  by (simp add: remove_overlapping_entities_def resolve_entities_def)

text \<open>
  C3, as stated: the resolver returns the empty entity list on
  \<open>[(0, 5, A), (6, 10, B)]\<close>. It does not.
\<close>

theorem resolver_two_entities_not_empty:
  "snd (hd (remove_overlapping_entities
      [(''0123456789'', [(0, 5, ''A''), (6, 10, ''B'')])])) \<noteq> []"
  by (simp add: remove_overlapping_entities_def resolve_entities_kept_pairs kept_pairs_def
      ent_end_def ent_start_def)

text \<open>
  C3, amended: on the entity list \<open>[(0, 5, A), (6, 10, B)]\<close> the pair test \<open>5 < 6\<close> succeeds, so
  the resolver keeps the first entity: the returned entity list starts with \<open>(0, 5, A)\<close>,
  whatever the text of the instance is.
\<close>

theorem resolver_two_entities_keeps_first:
  "take 1 (snd (hd (remove_overlapping_entities
      [(t, [(0, 5, ''A''), (6, 10, ''B'')])]))) = [(0, 5, ''A'')]"
  by (simp add: remove_overlapping_entities_def resolve_entities_kept_pairs kept_pairs_def
      ent_end_def ent_start_def)

text \<open>
  C4. For every well-formed BIO input, every entity span \<open>(s, e, label)\<close> of every training
  instance that the conversion returns satisfies \<open>0 \<le> s < e \<le> len(text)\<close> for the text
  of that instance.
\<close>

theorem entity_spans_within_text:
  assumes "wf_bio lines"
    and "load_spacy_train_data_from_bio_dataset lines = Inr instances"
    and "(txt, entities) \<in> set instances" and "(s, e, label) \<in> set entities"
  shows "0 \<le> s \<and> s < e \<and> e \<le> int (length txt)"
proof -
  from assms(2) obtain st where st: "convert_loop initial_state lines = Inr st"
    and ins: "instances = remove_overlapping_entities (train_instances st)"
    by (auto simp: load_spacy_train_data_from_bio_dataset_def split: sum.splits)
  from convert_loop_inv [OF assms(1) conv_inv_initial st] have "conv_inv st" .
  then have i6: "\<forall>inst \<in> set (train_instances st). \<forall>x \<in> set (kept_pairs (snd inst)).
      0 \<le> ent_start x \<and> ent_start x < ent_end x \<and> ent_end x \<le> int (length (fst inst))"
    by (simp add: conv_inv_def)
  from assms(3) ins obtain inst where inst: "inst \<in> set (train_instances st)"
    and t: "txt = fst inst" and en: "entities = kept_pairs (snd inst)"
    by (auto simp: remove_overlapping_entities_def resolve_entities_kept_pairs)
  from i6 inst en assms(4) have "0 \<le> ent_start (s, e, label)
      \<and> ent_start (s, e, label) < ent_end (s, e, label)
      \<and> ent_end (s, e, label) \<le> int (length (fst inst))" by blast
  with t show ?thesis by (simp add: ent_start_def ent_end_def)
qed

theorem entity_spans_within_text_witness:
  "wf_bio [''I O'', ''saw O'', ''Bob B-PER'', ''in O'', ''Rome B-LOC'', ''today O'', '''']
   \<and> load_spacy_train_data_from_bio_dataset
        [''I O'', ''saw O'', ''Bob B-PER'', ''in O'', ''Rome B-LOC'', ''today O'', ''''] =
       Inr [(''I saw Bob in Rome today'', [(6, 9, ''PER'')])]
   \<and> (0::int) \<le> 6 \<and> (6::int) < 9 \<and> 9 \<le> int (length ''I saw Bob in Rome today'')"
proof -
  let ?L = "[''I O'', ''saw O'', ''Bob B-PER'', ''in O'', ''Rome B-LOC'', ''today O'', '''']"
  have a: "wf_bio ?L" by code_simp
  have b: "load_spacy_train_data_from_bio_dataset ?L =
       Inr [(''I saw Bob in Rome today'', [(6, 9, ''PER'')])]" by code_simp
  have c: "(''I saw Bob in Rome today'', [(6, 9, ''PER'')])
       \<in> set [(''I saw Bob in Rome today'', [(6, 9, ''PER'')])]" by simp
  have d: "(6, 9, ''PER'') \<in> set [(6::int, 9::int, ''PER'')]" by simp
  from entity_spans_within_text [OF a b c d] a b show ?thesis by simp
qed

text \<open>
  C5. When the entity list of every instance is sorted by start offset, the entity list that
  \<^verbatim>\<open>remove_overlapping_entities\<close> leaves in an instance is pairwise non-overlapping: of any
  two kept entities, the earlier one ends strictly before the later one starts.
\<close>

theorem resolver_output_non_overlapping:
  assumes "\<forall>inst \<in> set instances. sorted (map ent_start (snd inst))"
    and "inst' \<in> set (remove_overlapping_entities instances)"
    and "i < j" and "j < length (snd inst')"
  shows "ent_end (snd inst' ! i) < ent_start (snd inst' ! j)"
proof -
  from assms(2) obtain inst where inst: "inst \<in> set instances"
    and eq: "snd inst' = kept_pairs (snd inst)"
    by (auto simp: remove_overlapping_entities_def resolve_entities_kept_pairs)
  from assms(1) inst have "sorted (map ent_start (snd inst))" by blast
  then have "sorted_wrt (\<lambda>a b. ent_end a < ent_start b) (snd inst')"
    using eq kept_pairs_separated by simp
  with assms(3,4) show ?thesis
    by (simp add: sorted_wrt_iff_nth_less)
qed

theorem resolver_output_non_overlapping_witness:
  "ent_end (snd (''ab cd ef'', [(0, 2, ''A''), (3, 5, ''B'')]) ! 0)
     < ent_start (snd (''ab cd ef'', [(0, 2, ''A''), (3, 5, ''B'')]) ! 1)"
proof -
  let ?ins = "[(''ab cd ef'', [(0, 2, ''A''), (3, 5, ''B''), (6, 8, ''C'')])]"
  have a: "\<forall>inst \<in> set ?ins. sorted (map ent_start (snd inst))"
    by (simp add: ent_start_def)
  have b: "(''ab cd ef'', [(0, 2, ''A''), (3, 5, ''B'')]) \<in> set (remove_overlapping_entities ?ins)"
    by (simp add: remove_overlapping_entities_def resolve_entities_kept_pairs kept_pairs_def
        ent_end_def ent_start_def)
  show ?thesis
    using resolver_output_non_overlapping [OF a b, of 0 1] by simp
qed

text \<open>
  C6. The claim: an entity still open at a sentence boundary never appears in the entity
  list of a returned instance. The code resets the text and the annotations at a blank line
  but not the open entity, its tag and its offset. Here \<open>Bob\<close> is open when the first
  sentence ends; the first \<open>O\<close> line of the second sentence records it there, with the offset
  it had in the first sentence, and the resolver keeps it: the second instance is returned
  with the entity \<open>(0, 3, PER)\<close>, which covers \<open>he\<close> and a space.
\<close>

theorem open_entity_leaks_into_next_sentence:
  "load_spacy_train_data_from_bio_dataset
      [''Bob B-PER'', '''', ''he O'', ''saw O'', ''Al B-PER'', ''x O'', ''''] =
     Inr [(''Bob'', []), (''he saw Al x'', [(0, 3, ''PER'')])]"
  by code_simp

text \<open>
  C7. \<^verbatim>\<open>evaluate\<close> returns micro-averaged scores: with the true positives, false positives
  and false negatives pooled over all instances by comparing the sets of
  \<^verbatim>\<open>"<surface_text>_<label>"\<close> strings, precision is \<open>tp / (tp + fp)\<close>, recall is
  \<open>tp / (tp + fn)\<close> and the F-score is \<open>2 * precision * recall / (precision + recall)\<close>, each
  0 when its denominator is 0; when every instance has empty prediction and gold sets, all
  three scores are 0.
\<close>

theorem evaluate_micro_averaged:
  "precision (evaluate insts nlp) =
     (if pooled_tp nlp insts + pooled_fp nlp insts = 0 then 0
      else real_of_int (pooled_tp nlp insts)
             / real_of_int (pooled_tp nlp insts + pooled_fp nlp insts))
   \<and> recall (evaluate insts nlp) =
     (if pooled_tp nlp insts + pooled_fn nlp insts = 0 then 0
      else real_of_int (pooled_tp nlp insts)
             / real_of_int (pooled_tp nlp insts + pooled_fn nlp insts))
   \<and> fscore (evaluate insts nlp) =
     (if precision (evaluate insts nlp) + recall (evaluate insts nlp) = 0 then 0
      else 2 * precision (evaluate insts nlp) * recall (evaluate insts nlp)
             / (precision (evaluate insts nlp) + recall (evaluate insts nlp)))
   \<and> ((\<forall>inst \<in> set insts. pred_strings nlp inst = {} \<and> gold_strings inst = {}) \<longrightarrow>
        precision (evaluate insts nlp) = 0 \<and> recall (evaluate insts nlp) = 0
        \<and> fscore (evaluate insts nlp) = 0)"
proof -
  let ?tp = "pooled_tp nlp insts" and ?fp = "pooled_fp nlp insts" and ?fn = "pooled_fn nlp insts"
  have nn: "0 \<le> ?tp" "0 \<le> ?fp" "0 \<le> ?fn" by (rule pooled_nonneg)+
  have p: "precision (evaluate insts nlp) =
      (if ?tp + ?fp = 0 then 0 else real_of_int ?tp / real_of_int (?tp + ?fp))"
    using nn by (simp add: evaluate_pooled Let_def)
  have r: "recall (evaluate insts nlp) =
      (if ?tp + ?fn = 0 then 0 else real_of_int ?tp / real_of_int (?tp + ?fn))"
    using nn by (simp add: evaluate_pooled Let_def)
  have p0: "0 \<le> precision (evaluate insts nlp)"
    using nn unfolding p by simp
  have r0: "0 \<le> recall (evaluate insts nlp)"
    using nn unfolding r by simp
  have f: "fscore (evaluate insts nlp) =
      (if precision (evaluate insts nlp) + recall (evaluate insts nlp) > 0
       then 2 * (precision (evaluate insts nlp) * recall (evaluate insts nlp))
              / (precision (evaluate insts nlp) + recall (evaluate insts nlp)) else 0)"
    by (simp add: evaluate_pooled Let_def)
  have f': "fscore (evaluate insts nlp) =
     (if precision (evaluate insts nlp) + recall (evaluate insts nlp) = 0 then 0
      else 2 * precision (evaluate insts nlp) * recall (evaluate insts nlp)
             / (precision (evaluate insts nlp) + recall (evaluate insts nlp)))"
  proof (cases "precision (evaluate insts nlp) + recall (evaluate insts nlp) = 0")
    case True
    then show ?thesis using f by simp
  next
    case False
    with p0 r0 have "precision (evaluate insts nlp) + recall (evaluate insts nlp) > 0" by linarith
    with False show ?thesis using f by (simp add: mult.assoc)
  qed
  have e: "precision (evaluate insts nlp) = 0 \<and> recall (evaluate insts nlp) = 0
        \<and> fscore (evaluate insts nlp) = 0"
    if "\<forall>inst \<in> set insts. pred_strings nlp inst = {} \<and> gold_strings inst = {}"
    using pooled_empty [OF that] by (simp add: evaluate_pooled Let_def)
  show ?thesis
    using p r f' e by blast
qed

theorem evaluate_micro_averaged_witness:
  "pred_strings (\<lambda>t. []) (''Paris'', []) = {} \<and> gold_strings (''Paris'', []) = {}
   \<and> precision (evaluate [(''Paris'', [])] (\<lambda>t. [])) = 0
   \<and> recall (evaluate [(''Paris'', [])] (\<lambda>t. [])) = 0
   \<and> fscore (evaluate [(''Paris'', [])] (\<lambda>t. [])) = 0"
proof -
  have h: "\<forall>inst \<in> set [(''Paris'', [])].
      pred_strings (\<lambda>t. []) inst = {} \<and> gold_strings inst = {}"
    by (simp add: pred_strings_def gold_strings_def)
  from evaluate_micro_averaged [of "[(''Paris'', [])]" "\<lambda>t. []"] h
  have "precision (evaluate [(''Paris'', [])] (\<lambda>t. [])) = 0
     \<and> recall (evaluate [(''Paris'', [])] (\<lambda>t. [])) = 0
     \<and> fscore (evaluate [(''Paris'', [])] (\<lambda>t. [])) = 0"
    by blast
  then show ?thesis
    by (simp add: pred_strings_def gold_strings_def)
qed

text \<open>
  C8. With an output directory, training writes a checkpoint after exactly the epochs whose
  F-score is strictly greater than the best F-score before them, the greatest of \<open>0.0\<close> and
  the scores of the earlier epochs; a tie writes nothing. For the scores
  \<open>[0.5, 0.5, 0.6, 0.4]\<close> the checkpoints are those of the first and the third epoch (epochs
  0 and 2 of \<^verbatim>\<open>range(num_epochs)\<close>).
\<close>

theorem checkpoint_policy:
  "train_nerc_model (Some d) scores =
     Inr (map (\<lambda>k. (k, scores ! k))
       (filter (\<lambda>k. scores ! k > Max (insert 0 (set (take k scores)))) [0 ..< length scores]))
   \<and> train_nerc_model (Some d) [0.5, 0.5, 0.6, 0.4] = Inr [(0, 0.5), (2, 0.6)]"
proof -
  have g: "train_nerc_model (Some d) scores =
     Inr (map (\<lambda>k. (k, scores ! k)) (improving_epochs 0 scores))" for scores
    by (simp add: train_nerc_model_def epoch_loop_improving)
  have c: "train_nerc_model (Some d) [0.5, 0.5, 0.6, 0.4] = Inr [(0, 0.5), (2, 0.6)]"
    by (simp add: train_nerc_model_def)
  show ?thesis
    using g c by (simp add: improving_epochs_def best_before_def)
qed

text \<open>
  C9, as stated: a token/tag line whose tag has a prefix other than \<open>B\<close>, \<open>I\<close>, \<open>O\<close> makes
  the conversion raise. It does not when a tab separates the token from the tag: the loop
  skips every line whose stripped text holds no space character, whatever its tag, and the
  conversion returns its instances.
\<close>

theorem tab_separated_bad_tag_skipped:
  "token_tag_line (''foo'' @ [CHR 0x09] @ ''X-BAD'')
   \<and> bad_prefix (line_tag (''foo'' @ [CHR 0x09] @ ''X-BAD''))
   \<and> load_spacy_train_data_from_bio_dataset [''a O'', ''foo'' @ [CHR 0x09] @ ''X-BAD'', ''''] =
       Inr [(''a'', [])]"
  by code_simp

text \<open>
  C9, amended: if the input has a token/tag line whose stripped text holds a space character
  and whose tag has a prefix other than \<open>B\<close>, \<open>I\<close>, \<open>O\<close>, the conversion raises an exception
  and returns no instances.
\<close>

theorem malformed_tag_aborts:
  assumes "line \<in> set lines" "token_tag_line line" "bad_prefix (line_tag line)"
    and "CHR '' '' \<in> set (strip line)"
  shows "\<exists>e. load_spacy_train_data_from_bio_dataset lines = Inl e"
proof -
  from convert_loop_error [OF assms(1)] process_line_bad_tag [OF assms(2,3,4)]
  obtain e where "convert_loop initial_state lines = Inl e" by blast
  then show ?thesis by (simp add: load_spacy_train_data_from_bio_dataset_def)
qed

theorem malformed_tag_aborts_witness:
  "token_tag_line ''foo X-BAD'' \<and> bad_prefix (line_tag ''foo X-BAD'')
   \<and> load_spacy_train_data_from_bio_dataset [''a O'', ''foo X-BAD'', ''''] =
       Inl (MalformedTag ''X-BAD'')"
proof -
  have a: "''foo X-BAD'' \<in> set [''a O'', ''foo X-BAD'', '''']" by simp
  have b: "token_tag_line ''foo X-BAD''" by code_simp
  have c: "bad_prefix (line_tag ''foo X-BAD'')" by code_simp
  have d: "CHR '' '' \<in> set (strip ''foo X-BAD'')" by code_simp
  have e: "load_spacy_train_data_from_bio_dataset [''a O'', ''foo X-BAD'', ''''] =
       Inl (MalformedTag ''X-BAD'')" by code_simp
  from malformed_tag_aborts [OF a b c d] b c e show ?thesis by simp
qed

text \<open>
  C10. Lines that follow the last blank line of the input add nothing to the result: when
  the conversion of an input followed by non-blank lines returns, it returns exactly the
  instances that the input without these lines gives.
\<close>

theorem unterminated_sentence_omitted:
  assumes "\<forall>line \<in> set trailing. strip line \<noteq> []"
    and "load_spacy_train_data_from_bio_dataset (lines @ trailing) = Inr instances"
  shows "load_spacy_train_data_from_bio_dataset lines = Inr instances"
proof -
  from assms(2) obtain st where st: "convert_loop initial_state (lines @ trailing) = Inr st"
    and ins: "instances = remove_overlapping_entities (train_instances st)"
    by (auto simp: load_spacy_train_data_from_bio_dataset_def split: sum.splits)
  from st obtain st1 where s1: "convert_loop initial_state lines = Inr st1"
    and s2: "convert_loop st1 trailing = Inr st"
    by (auto simp: convert_loop_append split: sum.splits)
  from convert_loop_instances [OF assms(1) s2] have "train_instances st = train_instances st1" .
  with s1 ins show ?thesis by (simp add: load_spacy_train_data_from_bio_dataset_def)
qed

theorem unterminated_sentence_omitted_witness:
  "load_spacy_train_data_from_bio_dataset
      ([''a O'', ''''] @ [''Shaka B-PER'', ''Khan I-PER'', ''is O'', ''here O'']) = Inr [(''a'', [])]
   \<and> load_spacy_train_data_from_bio_dataset [''a O'', ''''] = Inr [(''a'', [])]"
proof -
  have a: "\<forall>line \<in> set [''Shaka B-PER'', ''Khan I-PER'', ''is O'', ''here O'']. strip line \<noteq> []"
    by code_simp
  have b: "load_spacy_train_data_from_bio_dataset
      ([''a O'', ''''] @ [''Shaka B-PER'', ''Khan I-PER'', ''is O'', ''here O'']) = Inr [(''a'', [])]"
    by code_simp
  from unterminated_sentence_omitted [OF a b] b show ?thesis by simp
qed

end
